theory Spec2Isabelle
  imports Main "HOL-Library.AList" "HOL-Library.Char_ord" "HOL-Library.List_Lexorder"
    "HOL-Library.Product_Lexorder"
begin


section \<open>PMaP: course catalogue, prerequisite graph and term planning\<close>

text \<open>
  A shallow embedding of \<^verbatim>\<open>src/main.py\<close>. Conventions of the embedding:
  \<^item> a Python \<^verbatim>\<open>dict\<close> is an association list in insertion order (a key that is
    stored again keeps its position, a new key goes to the end);
  \<^item> a Python \<^verbatim>\<open>set\<close> of codes is a list without repetitions. Python leaves the
    iteration order of a set open; a set stored in a model may be listed in any order,
    and a set built during a call is listed in insertion order;
  \<^item> a Python \<^verbatim>\<open>int\<close> is an \<^typ>\<open>int\<close>;
  \<^item> a course code is an ASCII string, so \<^verbatim>\<open>str.upper\<close> maps \<^verbatim>\<open>a..z\<close> to
    \<^verbatim>\<open>A..Z\<close> and \<^verbatim>\<open>str.strip\<close> removes the ASCII white space at both ends;
  \<^item> an exception is a value of type \<open>error\<close>; a method that mutates its object
    returns its outcome together with the object's state after the call.
\<close>

subsection \<open>Exceptions\<close>

datatype error = ValueError | KeyError string | RecursionError

subsection \<open>Strings\<close>

definition upper_char :: "char \<Rightarrow> char" where
  "upper_char c =
     (if CHR ''a'' \<le> c \<and> c \<le> CHR ''z'' then char_of (of_char c - (32::nat)) else c)"

definition upper :: "string \<Rightarrow> string" where
  "upper s = map upper_char s"

definition isspace :: "char \<Rightarrow> bool" where
  "isspace c = (of_char c \<in> {9, 10, 11, 12, 13, 28, 29, 30, 31, 32 :: nat})"

definition strip :: "string \<Rightarrow> string" where
  "strip s = rev (dropWhile isspace (rev (dropWhile isspace s)))"

definition isdigit :: "char \<Rightarrow> bool" where
  "isdigit c = (CHR ''0'' \<le> c \<and> c \<le> CHR ''9'')"

text \<open>CPython's limit on the number of digits in a conversion between \<^verbatim>\<open>int\<close> and
  \<^verbatim>\<open>str\<close> (\<^verbatim>\<open>sys.int_max_str_digits\<close>, by default 4300): a conversion with more
  digits raises \<^verbatim>\<open>ValueError\<close>.\<close>

definition int_max_str_digits :: nat where
  "int_max_str_digits = 4300"

text \<open>The value of a run of ASCII digits.\<close>

definition int_of_digits :: "string \<Rightarrow> int" where
  "int_of_digits s = foldl (\<lambda>a d. 10 * a + (int (of_char d) - 48)) 0 s"

text \<open>\<^verbatim>\<open>int(s)\<close> for a run of ASCII digits.\<close>

definition int_of_str :: "string \<Rightarrow> error + int" where
  "int_of_str s = (if int_max_str_digits < length s then Inl ValueError else Inr (int_of_digits s))"

text \<open>\<open>n\<close> has more than \<open>k\<close> decimal digits, that is \<open>10 ^ k \<le> n\<close>.\<close>

fun more_digits_than :: "nat \<Rightarrow> nat \<Rightarrow> bool" where
  "more_digits_than 0 n = (0 < n)"
| "more_digits_than (Suc k) n = more_digits_than k (n div 10)"

text \<open>Formatting an \<^verbatim>\<open>int\<close> in an f-string, for its outcome only: the text itself is
  not modelled.\<close>

definition format_int :: "int \<Rightarrow> error + unit" where
  "format_int n =
     (if more_digits_than int_max_str_digits (nat \<bar>n\<bar>) then Inl ValueError else Inr ())"

text \<open>\<^verbatim>\<open>re.findall(r'\d+', code)\<close>, first match only: the first maximal run of digits
  (empty when the code has no digit).\<close>

definition first_digits :: "string \<Rightarrow> string" where
  "first_digits s = takeWhile isdigit (dropWhile (\<lambda>c. \<not> isdigit c) s)"

subsection \<open>Dictionaries and sets\<close>

definition keys :: "('k \<times> 'v) list \<Rightarrow> 'k list" where
  "keys d = map fst d"

definition dict_values :: "('k \<times> 'v) list \<Rightarrow> 'v list" where
  "dict_values d = map snd d"

text \<open>\<^verbatim>\<open>d[k] = v\<close>\<close>

definition setitem :: "'k \<Rightarrow> 'v \<Rightarrow> ('k \<times> 'v) list \<Rightarrow> ('k \<times> 'v) list" where
  "setitem k v d = AList.update k v d"

text \<open>\<^verbatim>\<open>d.setdefault(k, v)\<close>, for its effect on \<open>d\<close>\<close>

definition setdefault :: "'k \<Rightarrow> 'v \<Rightarrow> ('k \<times> 'v) list \<Rightarrow> ('k \<times> 'v) list" where
  "setdefault k v d = (case map_of d k of None \<Rightarrow> d @ [(k, v)] | Some _ \<Rightarrow> d)"

text \<open>\<^verbatim>\<open>d.get(k, v)\<close>\<close>

definition get_default :: "('k \<times> 'v) list \<Rightarrow> 'k \<Rightarrow> 'v \<Rightarrow> 'v" where
  "get_default d k v = (case map_of d k of None \<Rightarrow> v | Some w \<Rightarrow> w)"

text \<open>\<^verbatim>\<open>s.add(x)\<close>\<close>

definition set_add :: "'a \<Rightarrow> 'a list \<Rightarrow> 'a list" where
  "set_add x s = (if x \<in> set s then s else s @ [x])"

subsection \<open>The data model\<close>

record Course =
  code :: string
  name :: string
  credits :: int

record PMaPModel =
  courses :: "(string \<times> Course) list"
  prereqs :: "(string \<times> string list) list"
  passed :: "string list"

text \<open>\<^verbatim>\<open>PMaPModel()\<close>\<close>

definition new_model :: PMaPModel where
  "new_model = \<lparr>courses = [], prereqs = [], passed = []\<rparr>"

text \<open>The exchanged data shape: the dictionary \<^verbatim>\<open>to_dict\<close> builds and
  \<^verbatim>\<open>from_dict\<close> reads. A missing key reads as the empty list
  (\<^verbatim>\<open>data.get(key, [])\<close>); a course entry has the three fields of a course.\<close>

record model_dict =
  d_courses :: "Course list"
  d_prerequisites :: "(string \<times> string) list"
  d_passed :: "string list"

subsection \<open>Serialisation\<close>

definition to_dict :: "PMaPModel \<Rightarrow> model_dict" where
  "to_dict m =
     \<lparr>d_courses =
        map (\<lambda>c. \<lparr>code = code c, name = name c, credits = credits c\<rparr>) (dict_values (courses m)),
      d_prerequisites = concat (map (\<lambda>(c, pres). map (\<lambda>p. (p, c)) pres) (prereqs m)),
      d_passed = sort (passed m)\<rparr>"

definition from_dict_course :: "Course \<Rightarrow> PMaPModel \<Rightarrow> PMaPModel" where
  "from_dict_course c m =
     m\<lparr>courses :=
         setitem (upper (code c))
           \<lparr>code = upper (code c), name = name c, credits = credits c\<rparr> (courses m)\<rparr>"

definition from_dict_prereq :: "string \<times> string \<Rightarrow> PMaPModel \<Rightarrow> PMaPModel" where
  "from_dict_prereq pc m =
     (let p = upper (fst pc); c = upper (snd pc);
          m1 = m\<lparr>prereqs := setitem c (set_add p (get_default (prereqs m) c [])) (prereqs m)\<rparr>;
          m2 = (if p \<notin> set (keys (courses m1))
                then m1\<lparr>courses := setitem p \<lparr>code = p, name = p, credits = 0\<rparr> (courses m1)\<rparr>
                else m1);
          m3 = (if c \<notin> set (keys (courses m2))
                then m2\<lparr>courses := setitem c \<lparr>code = c, name = c, credits = 0\<rparr> (courses m2)\<rparr>
                else m2)
      in m3)"

definition from_dict :: "model_dict \<Rightarrow> PMaPModel" where
  "from_dict d =
     (let m1 = fold from_dict_course (d_courses d) new_model;
          m2 = fold from_dict_prereq (d_prerequisites d) m1
      in m2\<lparr>passed := fold set_add (map upper (d_passed d)) []\<rparr>)"

subsection \<open>Editing a model\<close>

definition add_course :: "string \<Rightarrow> string \<Rightarrow> int \<Rightarrow> PMaPModel \<Rightarrow> PMaPModel" where
  "add_course cd nm cr m =
     (let c = upper (strip cd)
      in m\<lparr>courses := setitem c \<lparr>code = c, name = strip nm, credits = cr\<rparr> (courses m),
           prereqs := setdefault c [] (prereqs m)\<rparr>)"

definition add_prereq :: "string \<Rightarrow> string \<Rightarrow> PMaPModel \<Rightarrow> (error + unit) \<times> PMaPModel" where
  "add_prereq prereq course m =
     (let p = upper (strip prereq); c = upper (strip course)
      in if c = p then (Inl ValueError, m)
         else
           let m1 = (if p \<notin> set (keys (courses m))
                     then m\<lparr>courses := setitem p \<lparr>code = p, name = p, credits = 0\<rparr> (courses m)\<rparr>
                     else m);
               m2 = (if c \<notin> set (keys (courses m1))
                     then m1\<lparr>courses := setitem c \<lparr>code = c, name = c, credits = 0\<rparr> (courses m1)\<rparr>
                     else m1)
           in (Inr (),
               m2\<lparr>prereqs := setitem c (set_add p (get_default (prereqs m2) c [])) (prereqs m2)\<rparr>))"

definition mark_passed :: "string \<Rightarrow> PMaPModel \<Rightarrow> (error + unit) \<times> PMaPModel" where
  "mark_passed cd m =
     (let c = upper (strip cd)
      in if c \<notin> set (keys (courses m)) then (Inl (KeyError c), m)
         else (Inr (), m\<lparr>passed := set_add c (passed m)\<rparr>))"

subsection \<open>The prerequisite graph\<close>

text \<open>One step of the inner loop of \<^verbatim>\<open>build_graph\<close>: the edge from prerequisite \<open>p\<close>
  to \<open>course\<close>.\<close>

definition build_edge ::
  "string \<Rightarrow> string \<Rightarrow> (string \<times> string list) list \<times> (string \<times> int) list \<Rightarrow>
     (string \<times> string list) list \<times> (string \<times> int) list" where
  "build_edge course p g =
     (let adjacency = fst g; indegree = snd g;
          adjacency1 = setdefault p [] adjacency;
          adjacency2 = setitem p (set_add course (get_default adjacency1 p [])) adjacency1;
          indegree1 = setitem course (get_default indegree course 0 + 1) indegree;
          indegree2 = setdefault p 0 indegree1
      in (adjacency2, indegree2))"

definition build_graph ::
  "PMaPModel \<Rightarrow> (string \<times> string list) list \<times> (string \<times> int) list" where
  "build_graph m =
     (let adjacency = map (\<lambda>c. (c, [])) (keys (courses m));
          indegree = map (\<lambda>c. (c, 0)) (keys (courses m));
          g = fold (\<lambda>(course, pres) g. fold (build_edge course) pres g) (prereqs m)
                (adjacency, indegree)
      in fold (\<lambda>c g. (setdefault c [] (fst g), setdefault c 0 (snd g))) (keys (courses m)) g)"

subsection \<open>Topological order and cycle search\<close>

text \<open>The \<^verbatim>\<open>for v in adjacency.get(u, [])\<close> loop inside the \<^verbatim>\<open>while q\<close> loop.\<close>

fun relax ::
  "string list \<Rightarrow> (string \<times> int) list \<Rightarrow> string list \<Rightarrow>
     error + ((string \<times> int) list \<times> string list)" where
  "relax [] ic q = Inr (ic, q)"
| "relax (v # vs) ic q =
     (case map_of ic v of
        None \<Rightarrow> Inl (KeyError v)
      | Some d \<Rightarrow> relax vs (setitem v (d - 1) ic) (if d - 1 = 0 then q @ [v] else q))"

definition pos_count :: "(string \<times> int) list \<Rightarrow> nat" where
  "pos_count ic = length (filter (\<lambda>kd. 0 < snd kd) ic)"

lemma pos_count_setitem:
  "map_of ic v = Some d \<Longrightarrow>
     pos_count (setitem v (d - 1) ic) + (if d - 1 = 0 then 1 else 0) = pos_count ic"
  unfolding setitem_def pos_count_def
  by (induction ic) (auto split: if_splits)

lemma relax_measure:
  "relax vs ic q = Inr (ic', q') \<Longrightarrow> length q' + pos_count ic' = length q + pos_count ic"
proof (induction vs arbitrary: ic q)
  case Nil
  then show ?case by simp
next
  case (Cons v vs)
  then obtain d where d: "map_of ic v = Some d"
    by (auto split: option.splits)
  with Cons.prems have
    "relax vs (setitem v (d - 1) ic) (if d - 1 = 0 then q @ [v] else q) = Inr (ic', q')"
    by simp
  from Cons.IH [OF this] pos_count_setitem [OF d] show ?case
    by (auto split: if_splits)
qed

text \<open>The \<^verbatim>\<open>while q\<close> loop of \<^verbatim>\<open>topo_sort\<close>; it returns the order and the
  decremented copy of the indegrees.\<close>

function kahn_loop ::
  "(string \<times> string list) list \<Rightarrow> (string \<times> int) list \<Rightarrow> string list \<Rightarrow> string list \<Rightarrow>
     error + (string list \<times> (string \<times> int) list)" where
  "kahn_loop adjacency ic [] order = Inr (order, ic)"
| "kahn_loop adjacency ic (u # q) order =
     (case relax (get_default adjacency u []) ic q of
        Inl e \<Rightarrow> Inl e
      | Inr (ic', q') \<Rightarrow> kahn_loop adjacency ic' q' (order @ [u]))"
  by pat_completeness auto
termination
proof (relation "measure (\<lambda>(adjacency, ic, q, order). length q + pos_count ic)")
  show "wf (measure (\<lambda>(adjacency, ic, q, order). length q + pos_count ic))"
    by simp
next
  fix adjacency :: "(string \<times> string list) list"
  fix ic :: "(string \<times> int) list" and u q order x2 ic' q'
  assume "relax (get_default adjacency u []) ic q = Inr x2" and "(ic', q') = x2"
  then have "relax (get_default adjacency u []) ic q = Inr (ic', q')"
    by simp
  from relax_measure [OF this]
  show "((adjacency, ic', q', order @ [u]), (adjacency, ic, u # q, order))
          \<in> measure (\<lambda>(adjacency, ic, q, order). length q + pos_count ic)"
    by simp
qed

record dfs_state =
  visited :: "string set"
  stack :: "string set"
  parent :: "string \<rightharpoonup> string"
  cycle :: "string list option"

text \<open>The \<^verbatim>\<open>while cur != v\<close> loop that collects the cycle from the parent links.
  The loop need not end for every table of parents, so the first argument bounds the
  number of its iterations: \<open>None\<close> is the result of a run that needs more.\<close>

fun walk ::
  "nat \<Rightarrow> (string \<rightharpoonup> string) \<Rightarrow> string \<Rightarrow> string \<Rightarrow> string list \<Rightarrow>
     (error + string list) option" where
  "walk 0 par v cur path = (if cur \<noteq> v then None else Some (Inr path))"
| "walk (Suc n) par v cur path =
     (if cur \<noteq> v then
        (case par cur of
           None \<Rightarrow> Some (Inl (KeyError cur))
         | Some p \<Rightarrow> walk n par v p (path @ [cur]))
      else Some (Inr path))"

text \<open>The nested function \<^verbatim>\<open>dfs(u)\<close> and its \<^verbatim>\<open>for v in adjacency.get(u, [])\<close>
  loop. The closure's variables \<^verbatim>\<open>visited\<close>, \<^verbatim>\<open>stack\<close>, \<^verbatim>\<open>parent\<close> and
  \<^verbatim>\<open>cycle\<close> are the state. The first argument is the number of nested calls of
  \<^verbatim>\<open>dfs\<close> that Python's recursion limit still allows: a call beyond it raises
  \<^verbatim>\<open>RecursionError\<close>. The \<^verbatim>\<open>while cur != v\<close> loop is given as many iterations as
  there are codes in the graph; the result \<open>None\<close> stands for a loop that needs more.\<close>

fun dfs ::
  "nat \<Rightarrow> (string \<times> string list) list \<Rightarrow> (string \<times> int) list \<Rightarrow> string \<Rightarrow> dfs_state \<Rightarrow>
     (error + bool \<times> dfs_state) option"
and dfs_loop ::
  "nat \<Rightarrow> (string \<times> string list) list \<Rightarrow> (string \<times> int) list \<Rightarrow> string \<Rightarrow> string list \<Rightarrow>
     dfs_state \<Rightarrow> (error + bool \<times> dfs_state) option" where
  "dfs 0 adjacency ic u st = Some (Inl RecursionError)"
| "dfs (Suc n) adjacency ic u st =
     (case dfs_loop n adjacency ic u (get_default adjacency u [])
             (st\<lparr>visited := insert u (visited st), stack := insert u (stack st)\<rparr>) of
        None \<Rightarrow> None
      | Some (Inl e) \<Rightarrow> Some (Inl e)
      | Some (Inr (True, s)) \<Rightarrow> Some (Inr (True, s))
      | Some (Inr (False, s)) \<Rightarrow>
          (if u \<in> stack s then Some (Inr (False, s\<lparr>stack := stack s - {u}\<rparr>))
           else Some (Inl (KeyError u))))"
| "dfs_loop n adjacency ic u [] st = Some (Inr (False, st))"
| "dfs_loop n adjacency ic u (v # vs) st =
     (case map_of ic v of
        None \<Rightarrow> Some (Inl (KeyError v))
      | Some d \<Rightarrow>
          if 0 < d then
            if v \<notin> visited st then
              (case dfs n adjacency ic v (st\<lparr>parent := (parent st)(v \<mapsto> u)\<rparr>) of
                 None \<Rightarrow> None
               | Some (Inl e) \<Rightarrow> Some (Inl e)
               | Some (Inr (True, s)) \<Rightarrow> Some (Inr (True, s))
               | Some (Inr (False, s)) \<Rightarrow> dfs_loop n adjacency ic u vs s)
            else if v \<in> stack st then
              (case walk (length ic) (parent st) v u [v] of
                 None \<Rightarrow> None
               | Some (Inl e) \<Rightarrow> Some (Inl e)
               | Some (Inr path) \<Rightarrow> Some (Inr (True, st\<lparr>cycle := Some (rev (path @ [v]))\<rparr>)))
            else dfs_loop n adjacency ic u vs st
          else dfs_loop n adjacency ic u vs st)"

text \<open>The loop \<^verbatim>\<open>for node, deg in indegree_copy.items()\<close> that starts the searches.\<close>

fun dfs_all ::
  "nat \<Rightarrow> (string \<times> string list) list \<Rightarrow> (string \<times> int) list \<Rightarrow> (string \<times> int) list \<Rightarrow>
     dfs_state \<Rightarrow> (error + dfs_state) option" where
  "dfs_all n adjacency ic [] st = Some (Inr st)"
| "dfs_all n adjacency ic ((node, deg) # rest) st =
     (if 0 < deg \<and> node \<notin> visited st then
        (case dfs n adjacency ic node st of
           None \<Rightarrow> None
         | Some (Inl e) \<Rightarrow> Some (Inl e)
         | Some (Inr (True, s)) \<Rightarrow> Some (Inr s)
         | Some (Inr (False, s)) \<Rightarrow> dfs_all n adjacency ic rest s)
      else dfs_all n adjacency ic rest st)"

text \<open>\<^verbatim>\<open>topo_sort\<close>. Its first argument is the depth of recursion that is left to
  \<^verbatim>\<open>dfs\<close> when the method is called (Python's recursion limit less the frames in
  use).\<close>

definition topo_sort ::
  "nat \<Rightarrow> PMaPModel \<Rightarrow> (error + string list \<times> bool \<times> string list option) option" where
  "topo_sort limit m =
     (let adjacency = fst (build_graph m); indegree = snd (build_graph m);
          q = map fst (filter (\<lambda>cd. snd cd = 0) indegree)
      in case kahn_loop adjacency indegree q [] of
           Inl e \<Rightarrow> Some (Inl e)
         | Inr (order, indegree_copy) \<Rightarrow>
             let has_cycle = (length order \<noteq> length indegree_copy)
             in if has_cycle then
                  (case dfs_all limit adjacency indegree_copy indegree_copy
                          \<lparr>visited = {}, stack = {}, parent = Map.empty, cycle = None\<rparr> of
                     None \<Rightarrow> None
                   | Some (Inl e) \<Rightarrow> Some (Inl e)
                   | Some (Inr s) \<Rightarrow> Some (Inr (order, has_cycle, cycle s)))
                else Some (Inr (order, has_cycle, None)))"

subsection \<open>Eligibility\<close>

text \<open>The statement \<^verbatim>\<open>indeg[course] += 1\<close>.\<close>

definition incr :: "string \<Rightarrow> (string \<times> int) list \<Rightarrow> error + (string \<times> int) list" where
  "incr course indeg =
     (case map_of indeg course of
        None \<Rightarrow> Inl (KeyError course)
      | Some d \<Rightarrow> Inr (setitem course (d + 1) indeg))"

fun count_missing ::
  "string list \<Rightarrow> string \<Rightarrow> string list \<Rightarrow> (string \<times> int) list \<Rightarrow>
     error + (string \<times> int) list" where
  "count_missing psd course [] indeg = Inr indeg"
| "count_missing psd course (p # pres) indeg =
     (if p \<notin> set psd then
        (case incr course indeg of
           Inl e \<Rightarrow> Inl e
         | Inr indeg' \<Rightarrow> count_missing psd course pres indeg')
      else count_missing psd course pres indeg)"

fun count_all ::
  "string list \<Rightarrow> (string \<times> string list) list \<Rightarrow> (string \<times> int) list \<Rightarrow>
     error + (string \<times> int) list" where
  "count_all psd [] indeg = Inr indeg"
| "count_all psd ((course, pres) # rest) indeg =
     (case count_missing psd course pres indeg of
        Inl e \<Rightarrow> Inl e
      | Inr indeg' \<Rightarrow> count_all psd rest indeg')"

definition current_indegree_effective :: "PMaPModel \<Rightarrow> error + (string \<times> int) list" where
  "current_indegree_effective m =
     count_all (passed m) (prereqs m) (map (\<lambda>c. (c, 0)) (keys (courses m)))"

definition candidates :: "PMaPModel \<Rightarrow> error + string list" where
  "candidates m =
     (case current_indegree_effective m of
        Inl e \<Rightarrow> Inl e
      | Inr indeg_eff \<Rightarrow>
          Inr (sort (map fst (filter (\<lambda>cd. snd cd = 0 \<and> fst cd \<notin> set (passed m)) indeg_eff))))"

definition unlock_count :: "PMaPModel \<Rightarrow> string \<Rightarrow> int" where
  "unlock_count m course_code =
     (let adjacency = fst (build_graph m)
      in foldl (\<lambda>count v.
           let other_pres = filter (\<lambda>p. p \<noteq> course_code) (get_default (prereqs m) v [])
           in if \<forall>p \<in> set other_pres. p \<in> set (passed m) then count + 1 else count)
         0 (get_default adjacency course_code []))"

subsection \<open>Suggesting a term\<close>

text \<open>The sort key of \<^verbatim>\<open>suggest_next_semester\<close>. Python compares the tuples
  lexicographically; the two-component keys \<open>(a, code)\<close> are written \<open>(a, 0, code)\<close>
  here, which orders them the same way. \<^verbatim>\<open>self.courses[code]\<close> raises for an unknown
  code.\<close>

definition priority_key ::
  "PMaPModel \<Rightarrow> string \<Rightarrow> string \<Rightarrow> error + (int \<times> int \<times> string)" where
  "priority_key m criterion cd =
     (if criterion = ''desbloqueo'' then
        (case map_of (courses m) cd of
           None \<Rightarrow> Inl (KeyError cd)
         | Some c \<Rightarrow> Inr (- unlock_count m cd, credits c, cd))
      else if criterion = ''creditos'' then
        (case map_of (courses m) cd of
           None \<Rightarrow> Inl (KeyError cd)
         | Some c \<Rightarrow> Inr (credits c, 0, cd))
      else if criterion = ''nivel'' then
        (let digits = first_digits cd
         in if digits \<noteq> [] then
              (case int_of_str digits of
                 Inl e \<Rightarrow> Inl e
               | Inr level \<Rightarrow> Inr (level, 0, cd))
            else Inr (9999, 0, cd))
      else Inr (0, 0, cd))"

text \<open>\<^verbatim>\<open>sorted(cand, key=priority_key)\<close>: the keys are computed first, one per element
  and in order, then the elements are sorted by key, stably.\<close>

fun with_keys :: "('a \<Rightarrow> error + 'k) \<Rightarrow> 'a list \<Rightarrow> error + ('k \<times> 'a) list" where
  "with_keys f [] = Inr []"
| "with_keys f (x # xs) =
     (case f x of
        Inl e \<Rightarrow> Inl e
      | Inr k \<Rightarrow> (case with_keys f xs of Inl e \<Rightarrow> Inl e | Inr ks \<Rightarrow> Inr ((k, x) # ks)))"

definition sorted_by :: "('a \<Rightarrow> error + 'k::linorder) \<Rightarrow> 'a list \<Rightarrow> error + 'a list" where
  "sorted_by f xs =
     (case with_keys f xs of Inl e \<Rightarrow> Inl e | Inr ks \<Rightarrow> Inr (map snd (sort_key fst ks)))"

text \<open>The greedy loop. A reason is kept as the three values its text is formatted from:
  the code, its credits and its unlock count; formatting either number raises
  \<^verbatim>\<open>ValueError\<close> beyond the digit limit.\<close>

fun greedy ::
  "PMaPModel \<Rightarrow> int \<Rightarrow> string list \<Rightarrow> string list \<times> int \<times> (string \<times> int \<times> int) list \<Rightarrow>
     error + (string list \<times> int \<times> (string \<times> int \<times> int) list)" where
  "greedy m credit_cap [] acc = Inr acc"
| "greedy m credit_cap (cd # rest) (chosen, tot, reasons) =
     (case map_of (courses m) cd of
        None \<Rightarrow> Inl (KeyError cd)
      | Some c \<Rightarrow>
          let cr = credits c
          in if tot + cr \<le> credit_cap then
               (case format_int cr of
                  Inl e \<Rightarrow> Inl e
                | Inr _ \<Rightarrow>
                    (case format_int (unlock_count m cd) of
                       Inl e \<Rightarrow> Inl e
                     | Inr _ \<Rightarrow>
                         greedy m credit_cap rest
                           (chosen @ [cd], tot + cr, reasons @ [(cd, cr, unlock_count m cd)])))
             else greedy m credit_cap rest (chosen, tot, reasons))"

definition suggest_next_semester ::
  "PMaPModel \<Rightarrow> int \<Rightarrow> string \<Rightarrow> error + (string list \<times> int \<times> (string \<times> int \<times> int) list)" where
  "suggest_next_semester m credit_cap criterion =
     (case candidates m of
        Inl e \<Rightarrow> Inl e
      | Inr cand \<Rightarrow>
          (case sorted_by (priority_key m criterion) cand of
             Inl e \<Rightarrow> Inl e
           | Inr cand_sorted \<Rightarrow> greedy m credit_cap cand_sorted ([], 0, [])))"

section \<open>Specification vocabulary\<close>

definition prereqs_of :: "PMaPModel \<Rightarrow> string \<Rightarrow> string list" where
  "prereqs_of m c = get_default (prereqs m) c []"

definition edges :: "PMaPModel \<Rightarrow> (string \<times> string) set" where
  "edges m = {(p, c). p \<in> set (prereqs_of m c)}"

definition catalog :: "PMaPModel \<Rightarrow> string set" where
  "catalog m = set (keys (courses m))"

definition rep_ok :: "PMaPModel \<Rightarrow> bool" where
  "rep_ok m \<longleftrightarrow>
     distinct (keys (courses m)) \<and> distinct (keys (prereqs m)) \<and>
     (\<forall>c. distinct (prereqs_of m c)) \<and> distinct (passed m)"

definition edges_closed :: "PMaPModel \<Rightarrow> bool" where
  "edges_closed m \<longleftrightarrow>
     set (keys (prereqs m)) \<subseteq> catalog m \<and> (\<forall>c. set (prereqs_of m c) \<subseteq> catalog m)"

definition codes_normal :: "PMaPModel \<Rightarrow> bool" where
  "codes_normal m \<longleftrightarrow>
     (\<forall>kc \<in> set (courses m). code (snd kc) = fst kc \<and> upper (fst kc) = fst kc) \<and>
     (\<forall>x \<in> set (passed m). upper x = x)"

definition model_inv :: "PMaPModel \<Rightarrow> bool" where
  "model_inv m \<longleftrightarrow> rep_ok m \<and> edges_closed m \<and> codes_normal m"

inductive reachable :: "PMaPModel \<Rightarrow> bool" where
  new: "reachable new_model"
| load: "reachable (from_dict d)"
| course: "reachable m \<Longrightarrow> reachable (add_course cd nm cr m)"
| prereq: "reachable m \<Longrightarrow> reachable (snd (add_prereq p c m))"
| mark: "reachable m \<Longrightarrow> reachable (snd (mark_passed cd m))"


text \<open>The step shared by \<^const>\<open>add_prereq\<close> and \<^const>\<open>from_dict_prereq\<close>: a placeholder
  course for a code that is not in the catalogue.\<close>

definition ensure :: "string \<Rightarrow> PMaPModel \<Rightarrow> PMaPModel" where
  "ensure p m =
     (if p \<notin> set (keys (courses m))
      then m\<lparr>courses := setitem p \<lparr>code = p, name = p, credits = 0\<rparr> (courses m)\<rparr>
      else m)"

definition record_edge :: "string \<Rightarrow> string \<Rightarrow> PMaPModel \<Rightarrow> PMaPModel" where
  "record_edge p c m =
     m\<lparr>prereqs := setitem c (set_add p (get_default (prereqs m) c [])) (prereqs m)\<rparr>"


text \<open>The prerequisite edges in the order in which \<^const>\<open>build_graph\<close> and
  \<^const>\<open>to_dict\<close> enumerate them.\<close>

definition edge_list :: "PMaPModel \<Rightarrow> (string \<times> string) list" where
  "edge_list m = concat (map (\<lambda>(c, pres). map (\<lambda>p. (p, c)) pres) (prereqs m))"

text \<open>What \<^const>\<open>build_graph\<close> has built from the codes \<open>K\<close> and the edges \<open>E\<close>.\<close>

definition graph_of ::
  "string list \<Rightarrow> (string \<times> string) list \<Rightarrow>
     (string \<times> string list) list \<times> (string \<times> int) list \<Rightarrow> bool" where
  "graph_of K E g \<longleftrightarrow>
     distinct (keys (fst g)) \<and> distinct (keys (snd g)) \<and>
     set (keys (fst g)) = set K \<union> fst ` set E \<and>
     set (keys (snd g)) = set K \<union> fst ` set E \<union> snd ` set E \<and>
     (\<forall>x. distinct (get_default (fst g) x []) \<and>
          set (get_default (fst g) x []) = {c. (x, c) \<in> set E}) \<and>
     (\<forall>c \<in> set (keys (snd g)).
        map_of (snd g) c = Some (int (length (filter (\<lambda>e. snd e = c) E))))"

definition ex_model :: PMaPModel where
  "ex_model = from_dict
     \<lparr>d_courses =
        [\<lparr>code = ''A'', name = ''A'', credits = 1\<rparr>, \<lparr>code = ''B'', name = ''B'', credits = 1\<rparr>,
         \<lparr>code = ''C'', name = ''C'', credits = 1\<rparr>, \<lparr>code = ''D'', name = ''D'', credits = 1\<rparr>],
      d_prerequisites = [(''A'', ''B''), (''B'', ''C'')],
      d_passed = [''A'', ''B'']\<rparr>"

text \<open>The number of prerequisites of \<open>x\<close> that are not in \<open>psd\<close>, summed over the entries
  of the prerequisite mapping.\<close>

definition missing :: "string list \<Rightarrow> (string \<times> string list) list \<Rightarrow> string \<Rightarrow> int" where
  "missing psd P x =
     sum_list (map (\<lambda>(c, pres). if c = x then int (length (filter (\<lambda>p. p \<notin> set psd) pres)) else 0) P)"

text \<open>The credits of a catalogue code (0 for a code that is not in the catalogue).\<close>

definition credit :: "PMaPModel \<Rightarrow> string \<Rightarrow> int" where
  "credit m cd = (case map_of (courses m) cd of None \<Rightarrow> 0 | Some c \<Rightarrow> credits c)"

text \<open>An \<^verbatim>\<open>int\<close> that formatting accepts: at most \<^const>\<open>int_max_str_digits\<close> digits.\<close>

definition printable :: "int \<Rightarrow> bool" where
  "printable n \<longleftrightarrow> \<bar>n\<bar> < 10 ^ int_max_str_digits"

section \<open>Verification\<close>

subsection \<open>Facts about dictionaries, sets and strings\<close>

lemma keys_setitem: "set (keys (setitem k v d)) = insert k (set (keys d))"
  by (simp add: keys_def setitem_def AList.dom_update)

lemma map_of_setitem: "map_of (setitem k v d) = (map_of d)(k \<mapsto> v)"
  by (simp add: setitem_def AList.update_conv')

lemma distinct_keys_setitem: "distinct (keys d) \<Longrightarrow> distinct (keys (setitem k v d))"
  by (simp add: keys_def setitem_def AList.distinct_update)

lemma set_setitem_subset: "set (setitem k v d) \<subseteq> insert (k, v) (set d)"
  unfolding setitem_def by (induction d) auto

lemma keys_setdefault: "set (keys (setdefault k v d)) = insert k (set (keys d))"
  by (auto simp: keys_def setdefault_def map_of_eq_None_iff split: option.splits
      dest: map_of_SomeD intro: rev_image_eqI)

lemma distinct_keys_setdefault: "distinct (keys d) \<Longrightarrow> distinct (keys (setdefault k v d))"
  by (auto simp: keys_def setdefault_def map_of_eq_None_iff split: option.splits)

lemma set_setdefault_subset: "set (setdefault k v d) \<subseteq> insert (k, v) (set d)"
  by (auto simp: setdefault_def split: option.splits)

lemma map_of_setdefault:
  "map_of (setdefault k v d) = (case map_of d k of None \<Rightarrow> (map_of d)(k \<mapsto> v) | Some _ \<Rightarrow> map_of d)"
  by (auto simp: setdefault_def map_add_def fun_eq_iff split: option.splits)

lemma in_keys_iff: "k \<in> set (keys d) \<longleftrightarrow> map_of d k \<noteq> None"
  by (simp add: keys_def map_of_eq_None_iff)

lemma set_set_add: "set (set_add x s) = insert x (set s)"
  by (auto simp: set_add_def)

lemma distinct_set_add: "distinct s \<Longrightarrow> distinct (set_add x s)"
  by (simp add: set_add_def)

lemma set_fold_set_add: "set (fold set_add xs s) = set xs \<union> set s"
  by (induction xs arbitrary: s) (auto simp: set_set_add)

lemma distinct_fold_set_add: "distinct s \<Longrightarrow> distinct (fold set_add xs s)"
  by (induction xs arbitrary: s) (auto simp: distinct_set_add)

lemma upper_char_idem: "upper_char (upper_char c) = upper_char c"
proof (cases "CHR ''a'' \<le> c \<and> c \<le> CHR ''z''")
  case True
  then have "97 \<le> (of_char c :: nat)" "(of_char c :: nat) \<le> 122"
    by (simp_all add: less_eq_char_def)
  then have "\<not> CHR ''a'' \<le> char_of (of_char c - (32::nat))"
    by (simp add: less_eq_char_def)
  then have "upper_char (char_of (of_char c - (32::nat))) = char_of (of_char c - (32::nat))"
    by (simp add: upper_char_def)
  moreover from True have "upper_char c = char_of (of_char c - (32::nat))"
    by (simp add: upper_char_def)
  ultimately show ?thesis
    by simp
next
  case False
  then have "upper_char c = c"
    unfolding upper_char_def by (rule if_not_P)
  then show ?thesis
    by simp
qed

lemma upper_idem: "upper (upper s) = upper s"
  by (simp add: upper_def upper_char_idem)

lemma get_default_setitem:
  "get_default (setitem k v d) x w = (if x = k then v else get_default d x w)"
  by (simp add: get_default_def map_of_setitem)

lemma get_default_setdefault:
  "get_default (setdefault k v d) x v = get_default d x v"
  by (auto simp: get_default_def map_of_setdefault split: option.splits)

lemma get_default_notin: "k \<notin> set (keys d) \<Longrightarrow> get_default d k w = w"
  by (simp add: get_default_def in_keys_iff)

text \<open>Storing a course under its own upper-case code keeps the codes normal.\<close>

lemma codes_setitem:
  assumes "\<forall>kc \<in> set d. code (snd kc) = fst kc \<and> upper (fst kc) = fst kc"
    and "code v = k" and "upper k = k"
  shows "\<forall>kc \<in> set (setitem k v d). code (snd kc) = fst kc \<and> upper (fst kc) = fst kc"
  using assms set_setitem_subset [of k v d] by auto

lemma add_prereq_alt:
  "add_prereq prereq course m =
     (if upper (strip course) = upper (strip prereq) then (Inl ValueError, m)
      else (Inr (), record_edge (upper (strip prereq)) (upper (strip course))
              (ensure (upper (strip course)) (ensure (upper (strip prereq)) m))))"
  by (simp add: add_prereq_def ensure_def record_edge_def Let_def)

lemma from_dict_prereq_alt:
  "from_dict_prereq pc m =
     ensure (upper (snd pc)) (ensure (upper (fst pc)) (record_edge (upper (fst pc)) (upper (snd pc)) m))"
  by (simp add: from_dict_prereq_def ensure_def record_edge_def Let_def)

lemma catalog_ensure: "catalog (ensure p m) = insert p (catalog m)"
  by (auto simp: ensure_def catalog_def keys_setitem)

lemma prereqs_ensure: "prereqs (ensure p m) = prereqs m"
  by (simp add: ensure_def)

lemma passed_ensure: "passed (ensure p m) = passed m"
  by (simp add: ensure_def)

lemma prereqs_of_ensure: "prereqs_of (ensure p m) = prereqs_of m"
  by (simp add: prereqs_of_def prereqs_ensure fun_eq_iff)

lemma map_of_courses_ensure:
  "map_of (courses (ensure p m)) =
     (if p \<in> catalog m then map_of (courses m)
      else (map_of (courses m))(p \<mapsto> \<lparr>code = p, name = p, credits = 0\<rparr>))"
  by (simp add: ensure_def catalog_def map_of_setitem)

lemma catalog_record_edge: "catalog (record_edge p c m) = catalog m"
  by (simp add: record_edge_def catalog_def)

lemma passed_record_edge: "passed (record_edge p c m) = passed m"
  by (simp add: record_edge_def)

lemma courses_record_edge: "courses (record_edge p c m) = courses m"
  by (simp add: record_edge_def)

lemma prereqs_of_record_edge:
  "prereqs_of (record_edge p c m) x = (if x = c then set_add p (prereqs_of m c) else prereqs_of m x)"
  by (simp add: record_edge_def prereqs_of_def get_default_setitem)

lemma keys_prereqs_record_edge:
  "set (keys (prereqs (record_edge p c m))) = insert c (set (keys (prereqs m)))"
  by (simp add: record_edge_def keys_setitem)

lemma rep_ok_ensure: "rep_ok m \<Longrightarrow> rep_ok (ensure p m)"
  by (auto simp: rep_ok_def prereqs_of_ensure passed_ensure prereqs_ensure)
     (simp add: ensure_def distinct_keys_setitem)

lemma rep_ok_record_edge: "rep_ok m \<Longrightarrow> rep_ok (record_edge p c m)"
  by (auto simp: rep_ok_def prereqs_of_record_edge passed_record_edge courses_record_edge
      distinct_set_add)
     (simp add: record_edge_def distinct_keys_setitem)

lemma codes_normal_ensure: "upper p = p \<Longrightarrow> codes_normal m \<Longrightarrow> codes_normal (ensure p m)"
  using codes_setitem [of "courses m" "\<lparr>code = p, name = p, credits = 0\<rparr>" p]
  by (simp add: codes_normal_def ensure_def)

lemma codes_normal_record_edge: "codes_normal m \<Longrightarrow> codes_normal (record_edge p c m)"
  by (simp add: codes_normal_def passed_record_edge courses_record_edge)

lemma edges_closed_ensure: "edges_closed m \<Longrightarrow> edges_closed (ensure p m)"
  by (auto simp: edges_closed_def catalog_ensure prereqs_ensure prereqs_of_ensure)

lemma edges_closed_record_edge:
  "edges_closed m \<Longrightarrow> p \<in> catalog m \<Longrightarrow> c \<in> catalog m \<Longrightarrow> edges_closed (record_edge p c m)"
  by (auto simp: edges_closed_def catalog_record_edge keys_prereqs_record_edge
      prereqs_of_record_edge set_set_add)

lemma model_inv_ensure: "upper p = p \<Longrightarrow> model_inv m \<Longrightarrow> model_inv (ensure p m)"
  by (simp add: model_inv_def rep_ok_ensure edges_closed_ensure codes_normal_ensure)

lemma model_inv_new: "model_inv new_model"
  by (simp add: model_inv_def rep_ok_def edges_closed_def codes_normal_def new_model_def
      prereqs_of_def get_default_def keys_def catalog_def)

lemma model_inv_edge:
  assumes "model_inv m" and "upper p = p" and "upper c = c"
  shows "model_inv (record_edge p c (ensure c (ensure p m)))"
    and "model_inv (ensure c (ensure p (record_edge p c m)))"
proof -
  let ?m = "ensure c (ensure p m)"
  have "model_inv ?m"
    using assms by (simp add: model_inv_ensure)
  moreover have "p \<in> catalog ?m" "c \<in> catalog ?m"
    by (simp_all add: catalog_ensure)
  ultimately show "model_inv (record_edge p c ?m)"
    by (simp add: model_inv_def rep_ok_record_edge edges_closed_record_edge
        codes_normal_record_edge)
next
  let ?m = "record_edge p c m"
  let ?n = "ensure c (ensure p ?m)"
  have rep: "rep_ok ?n" and norm: "codes_normal ?n"
    using assms
    by (simp_all add: model_inv_def rep_ok_ensure rep_ok_record_edge codes_normal_ensure
        codes_normal_record_edge)
  have "edges_closed ?n"
    using assms(1)
    by (auto simp: model_inv_def edges_closed_def catalog_ensure prereqs_ensure prereqs_of_ensure
        catalog_record_edge keys_prereqs_record_edge prereqs_of_record_edge set_set_add)
  with rep norm show "model_inv ?n"
    by (simp add: model_inv_def)
qed

lemma model_inv_from_dict_course: "model_inv m \<Longrightarrow> model_inv (from_dict_course c m)"
proof -
  assume inv: "model_inv m"
  let ?v = "\<lparr>code = upper (code c), name = name c, credits = credits c\<rparr>"
  have "\<forall>kc\<in>set (setitem (upper (code c)) ?v (courses m)).
          code (snd kc) = fst kc \<and> upper (fst kc) = fst kc"
    using inv by (intro codes_setitem) (simp_all add: model_inv_def codes_normal_def upper_idem)
  then have "codes_normal (from_dict_course c m)"
    using inv by (simp add: model_inv_def codes_normal_def from_dict_course_def)
  moreover have "rep_ok (from_dict_course c m)"
    using inv
    by (simp add: model_inv_def rep_ok_def from_dict_course_def distinct_keys_setitem
        prereqs_of_def)
  moreover have "edges_closed (from_dict_course c m)"
    using inv
    by (auto simp: model_inv_def edges_closed_def from_dict_course_def catalog_def keys_setitem
        prereqs_of_def)
  ultimately show ?thesis
    by (simp add: model_inv_def)
qed

lemma model_inv_from_dict_prereq: "model_inv m \<Longrightarrow> model_inv (from_dict_prereq pc m)"
  by (simp add: from_dict_prereq_alt model_inv_edge upper_idem)

lemma model_inv_fold:
  "(\<And>x m. model_inv m \<Longrightarrow> model_inv (f x m)) \<Longrightarrow> model_inv m \<Longrightarrow> model_inv (fold f xs m)"
  by (induction xs arbitrary: m) simp_all

lemma model_inv_from_dict: "model_inv (from_dict d)"
proof -
  let ?m = "fold from_dict_prereq (d_prerequisites d) (fold from_dict_course (d_courses d) new_model)"
  have "model_inv ?m"
    by (intro model_inv_fold model_inv_from_dict_prereq model_inv_from_dict_course model_inv_new)
  then show ?thesis
    by (auto simp: from_dict_def Let_def model_inv_def rep_ok_def edges_closed_def
        codes_normal_def prereqs_of_def catalog_def distinct_fold_set_add set_fold_set_add
        upper_idem)
qed

lemma model_inv_add_course: "model_inv m \<Longrightarrow> model_inv (add_course cd nm cr m)"
proof -
  assume inv: "model_inv m"
  let ?c = "upper (strip cd)"
  let ?v = "\<lparr>code = ?c, name = strip nm, credits = cr\<rparr>"
  have "\<forall>kc\<in>set (setitem ?c ?v (courses m)). code (snd kc) = fst kc \<and> upper (fst kc) = fst kc"
    using inv by (intro codes_setitem) (simp_all add: model_inv_def codes_normal_def upper_idem)
  then have "codes_normal (add_course cd nm cr m)"
    using inv by (simp add: model_inv_def codes_normal_def add_course_def Let_def)
  moreover have "rep_ok (add_course cd nm cr m)"
    using inv
    by (simp add: model_inv_def rep_ok_def add_course_def Let_def distinct_keys_setitem
        distinct_keys_setdefault prereqs_of_def get_default_setdefault)
  moreover have "edges_closed (add_course cd nm cr m)"
    using inv
    by (auto simp: model_inv_def edges_closed_def add_course_def Let_def catalog_def keys_setitem
        keys_setdefault prereqs_of_def get_default_setdefault)
  ultimately show ?thesis
    by (simp add: model_inv_def)
qed

lemma model_inv_add_prereq: "model_inv m \<Longrightarrow> model_inv (snd (add_prereq p c m))"
  by (simp add: add_prereq_alt model_inv_edge upper_idem)

lemma model_inv_mark_passed: "model_inv m \<Longrightarrow> model_inv (snd (mark_passed cd m))"
  by (auto simp: mark_passed_def Let_def model_inv_def rep_ok_def edges_closed_def
      codes_normal_def prereqs_of_def catalog_def distinct_set_add set_set_add upper_idem)

lemma reachable_model_inv: "reachable m \<Longrightarrow> model_inv m"
  by (induction rule: reachable.induct)
     (simp_all add: model_inv_new model_inv_from_dict model_inv_add_course model_inv_add_prereq
        model_inv_mark_passed)

subsection \<open>Inserting a prerequisite edge\<close>

text \<open>
  Claim C9. Codes are compared after normalisation (\<^verbatim>\<open>strip().upper()\<close>). When the
  normalised prerequisite and course codes differ, \<^const>\<open>add_prereq\<close> succeeds; the
  catalogue afterwards is the old one plus the two codes; each of the two codes that was
  unknown is bound to a placeholder course with zero credits and the code as its name;
  every course that was known is untouched; the prerequisite is added to the course's
  prerequisite set and no other prerequisite set or the completed set changes. When the
  normalised codes are equal, the call raises \<^verbatim>\<open>ValueError\<close> and the model is unchanged.
\<close>

theorem add_prereq_contract:
  "(upper (strip course) \<noteq> upper (strip prereq) \<longrightarrow>
      (\<exists>m'. add_prereq prereq course m = (Inr (), m') \<and>
         catalog m' = catalog m \<union> {upper (strip prereq), upper (strip course)} \<and>
         (\<forall>x \<in> {upper (strip prereq), upper (strip course)}. x \<notin> catalog m \<longrightarrow>
            map_of (courses m') x = Some \<lparr>code = x, name = x, credits = 0\<rparr>) \<and>
         (\<forall>x \<in> catalog m. map_of (courses m') x = map_of (courses m) x) \<and>
         set (prereqs_of m' (upper (strip course))) =
           insert (upper (strip prereq)) (set (prereqs_of m (upper (strip course)))) \<and>
         (\<forall>x. x \<noteq> upper (strip course) \<longrightarrow> prereqs_of m' x = prereqs_of m x) \<and>
         passed m' = passed m)) \<and>
   (upper (strip course) = upper (strip prereq) \<longrightarrow>
      add_prereq prereq course m = (Inl ValueError, m))"
proof (intro conjI impI)
  let ?p = "upper (strip prereq)" and ?c = "upper (strip course)"
  let ?m' = "record_edge ?p ?c (ensure ?c (ensure ?p m))"
  assume ne: "?c \<noteq> ?p"
  have "add_prereq prereq course m = (Inr (), ?m')"
    using ne by (simp add: add_prereq_alt)
  moreover have "catalog ?m' = catalog m \<union> {?p, ?c}"
    by (auto simp: catalog_record_edge catalog_ensure)
  moreover have "\<forall>x \<in> {?p, ?c}. x \<notin> catalog m \<longrightarrow>
      map_of (courses ?m') x = Some \<lparr>code = x, name = x, credits = 0\<rparr>"
    using ne by (auto simp: courses_record_edge map_of_courses_ensure catalog_ensure)
  moreover have "\<forall>x \<in> catalog m. map_of (courses ?m') x = map_of (courses m) x"
    by (auto simp: courses_record_edge map_of_courses_ensure catalog_ensure)
  moreover have "set (prereqs_of ?m' ?c) = insert ?p (set (prereqs_of m ?c))"
    by (simp add: prereqs_of_record_edge prereqs_of_ensure set_set_add)
  moreover have "\<forall>x. x \<noteq> ?c \<longrightarrow> prereqs_of ?m' x = prereqs_of m x"
    by (simp add: prereqs_of_record_edge prereqs_of_ensure)
  moreover have "passed ?m' = passed m"
    by (simp add: passed_record_edge passed_ensure)
  ultimately show "\<exists>m'. add_prereq prereq course m = (Inr (), m') \<and>
         catalog m' = catalog m \<union> {?p, ?c} \<and>
         (\<forall>x \<in> {?p, ?c}. x \<notin> catalog m \<longrightarrow>
            map_of (courses m') x = Some \<lparr>code = x, name = x, credits = 0\<rparr>) \<and>
         (\<forall>x \<in> catalog m. map_of (courses m') x = map_of (courses m) x) \<and>
         set (prereqs_of m' ?c) = insert ?p (set (prereqs_of m ?c)) \<and>
         (\<forall>x. x \<noteq> ?c \<longrightarrow> prereqs_of m' x = prereqs_of m x) \<and>
         passed m' = passed m"
    by blast
next
  assume "upper (strip course) = upper (strip prereq)"
  then show "add_prereq prereq course m = (Inl ValueError, m)"
    by (simp add: add_prereq_alt)
qed

theorem add_prereq_contract_witness:
  "upper (strip ''eda2 '') \<noteq> upper (strip ''Mat101'') \<and>
   map_of (courses (snd (add_prereq ''Mat101'' ''eda2 '' (add_course ''mat101'' ''Calculo'' 4 new_model))))
     ''EDA2'' = Some \<lparr>code = ''EDA2'', name = ''EDA2'', credits = 0\<rparr> \<and>
   map_of (courses (snd (add_prereq ''Mat101'' ''eda2 '' (add_course ''mat101'' ''Calculo'' 4 new_model))))
     ''MAT101'' = Some \<lparr>code = ''MAT101'', name = ''Calculo'', credits = 4\<rparr> \<and>
   set (prereqs_of (snd (add_prereq ''Mat101'' ''eda2 '' (add_course ''mat101'' ''Calculo'' 4 new_model)))
     ''EDA2'') = {''MAT101''} \<and>
   upper (strip '' eda2'') = upper (strip ''EDA2'') \<and>
   add_prereq ''EDA2'' '' eda2'' new_model = (Inl ValueError, new_model)"
proof -
  let ?m = "add_course ''mat101'' ''Calculo'' 4 new_model"
  have ne: "upper (strip ''eda2 '') \<noteq> upper (strip ''Mat101'')"
    by code_simp
  have eq: "upper (strip '' eda2'') = upper (strip ''EDA2'')"
    by code_simp
  have c: "upper (strip ''eda2 '') = ''EDA2''" and p: "upper (strip ''Mat101'') = ''MAT101''"
    by code_simp+
  have cat: "catalog ?m = {''MAT101''}"
    by code_simp
  have old: "map_of (courses ?m) ''MAT101'' = Some \<lparr>code = ''MAT101'', name = ''Calculo'', credits = 4\<rparr>"
    by code_simp
  have pre: "prereqs_of ?m ''EDA2'' = []"
    by code_simp
  from add_prereq_contract [of "''eda2 ''" "''Mat101''" ?m] ne
  obtain m' where m': "add_prereq ''Mat101'' ''eda2 '' ?m = (Inr (), m')"
    and new: "\<forall>x \<in> {upper (strip ''Mat101''), upper (strip ''eda2 '')}. x \<notin> catalog ?m \<longrightarrow>
            map_of (courses m') x = Some \<lparr>code = x, name = x, credits = 0\<rparr>"
    and keep: "\<forall>x \<in> catalog ?m. map_of (courses m') x = map_of (courses ?m) x"
    and edge: "set (prereqs_of m' (upper (strip ''eda2 ''))) =
           insert (upper (strip ''Mat101'')) (set (prereqs_of ?m (upper (strip ''eda2 ''))))"
    by blast
  from new have "map_of (courses m') ''EDA2'' = Some \<lparr>code = ''EDA2'', name = ''EDA2'', credits = 0\<rparr>"
    unfolding c p cat by simp
  moreover from keep old have "map_of (courses m') ''MAT101'' =
      Some \<lparr>code = ''MAT101'', name = ''Calculo'', credits = 4\<rparr>"
    unfolding cat by simp
  moreover from edge have "set (prereqs_of m' ''EDA2'') = {''MAT101''}"
    unfolding c p pre by simp
  moreover from add_prereq_contract [of "'' eda2''" "''EDA2''" new_model] eq
  have "add_prereq ''EDA2'' '' eda2'' new_model = (Inl ValueError, new_model)"
    by blast
  ultimately show ?thesis
    using ne eq m' by simp
qed

subsection \<open>The catalogue as the universe of codes\<close>

text \<open>
  Claim C6. \<^const>\<open>from_dict\<close> copies the \<^verbatim>\<open>passed\<close> list without looking the codes
  up in the catalogue, unlike \<^const>\<open>mark_passed\<close>: loading a dictionary that lists
  \<^verbatim>\<open>X\<close> as passed and has no course gives a model, built through a public operation,
  whose completed set holds a code that is not in its (empty) catalogue.
\<close>

theorem from_dict_unknown_passed:
  "passed (from_dict \<lparr>d_courses = [], d_prerequisites = [], d_passed = [''X'']\<rparr>) = [''X''] \<and>
   catalog (from_dict \<lparr>d_courses = [], d_prerequisites = [], d_passed = [''X'']\<rparr>) = {} \<and>
   reachable (from_dict \<lparr>d_courses = [], d_prerequisites = [], d_passed = [''X'']\<rparr>)"
proof -
  have "passed (from_dict \<lparr>d_courses = [], d_prerequisites = [], d_passed = [''X'']\<rparr>) = [''X'']"
    by code_simp
  moreover have "catalog (from_dict \<lparr>d_courses = [], d_prerequisites = [], d_passed = [''X'']\<rparr>) = {}"
    by code_simp
  ultimately show ?thesis
    by (simp add: reachable.load)
qed

text \<open>What does hold after every sequence of public operations: the codes of the
  prerequisite mapping are catalogue codes, and \<^const>\<open>mark_passed\<close> rejects an unknown
  code and leaves the model as it was.\<close>

lemma reachable_edges_closed: "reachable m \<Longrightarrow> edges_closed m"
  using reachable_model_inv by (simp add: model_inv_def)

lemma mark_passed_unknown:
  "upper (strip cd) \<notin> catalog m \<Longrightarrow> mark_passed cd m = (Inl (KeyError (upper (strip cd))), m)"
  by (simp add: mark_passed_def catalog_def)

lemma mark_passed_known:
  "upper (strip cd) \<in> catalog m \<Longrightarrow>
     mark_passed cd m = (Inr (), m\<lparr>passed := set_add (upper (strip cd)) (passed m)\<rparr>)"
  by (simp add: mark_passed_def catalog_def)

lemma setdefault_known: "k \<in> set (keys d) \<Longrightarrow> setdefault k v d = d"
  by (auto simp: setdefault_def in_keys_iff split: option.splits)

lemma keys_map_const: "keys (map (\<lambda>c. (c, v)) K) = K"
  by (simp add: keys_def comp_def)

lemma map_of_map_const: "map_of (map (\<lambda>c. (c, v)) K) x = (if x \<in> set K then Some v else None)"
  by (induction K) auto

lemma graph_of_init:
  "distinct K \<Longrightarrow> graph_of K [] (map (\<lambda>c. (c, [])) K, map (\<lambda>c. (c, 0)) K)"
  by (auto simp: graph_of_def keys_map_const get_default_def map_of_map_const)

lemma graph_of_step:
  assumes "graph_of K E g"
  shows "graph_of K (E @ [(p, c)]) (build_edge c p g)"
proof -
  let ?adj = "fst g" and ?ind = "snd g"
  let ?adj1 = "setdefault p [] ?adj"
  let ?adj2 = "setitem p (set_add c (get_default ?adj1 p [])) ?adj1"
  let ?ind1 = "setitem c (get_default ?ind c 0 + 1) ?ind"
  let ?ind2 = "setdefault p 0 ?ind1"
  let ?E = "E @ [(p, c)]"
  have g': "build_edge c p g = (?adj2, ?ind2)"
    by (simp add: build_edge_def Let_def)
  have d1: "distinct (keys ?adj2)" and d2: "distinct (keys ?ind2)"
    using assms by (simp_all add: graph_of_def distinct_keys_setitem distinct_keys_setdefault)
  have k1: "set (keys ?adj2) = set K \<union> fst ` set ?E"
    using assms by (auto simp: graph_of_def keys_setitem keys_setdefault)
  have k2: "set (keys ?ind2) = set K \<union> fst ` set ?E \<union> snd ` set ?E"
    using assms by (auto simp: graph_of_def keys_setitem keys_setdefault)
  have a: "distinct (get_default ?adj2 x []) \<and> set (get_default ?adj2 x []) = {c. (x, c) \<in> set ?E}"
    for x
    using assms
    by (auto simp: graph_of_def get_default_setitem get_default_setdefault distinct_set_add
        set_set_add)
  have old: "get_default ?ind c 0 = int (length (filter (\<lambda>e. snd e = c) E))"
  proof (cases "c \<in> set (keys ?ind)")
    case True
    with assms show ?thesis
      by (simp add: graph_of_def get_default_def)
  next
    case False
    with assms have "c \<notin> snd ` set E"
      by (auto simp: graph_of_def)
    then have "filter (\<lambda>e. snd e = c) E = []"
      by (auto simp: filter_empty_conv)
    with False show ?thesis
      by (simp add: get_default_notin)
  qed
  have i: "map_of ?ind2 x = Some (int (length (filter (\<lambda>e. snd e = x) ?E)))"
    if "x \<in> set (keys ?ind2)" for x
  proof (cases "x = c")
    case True
    then show ?thesis
      using old by (auto simp: map_of_setdefault map_of_setitem split: option.splits)
  next
    case xc: False
    show ?thesis
    proof (cases "x \<in> set (keys ?ind)")
      case True
      with assms have "map_of ?ind x = Some (int (length (filter (\<lambda>e. snd e = x) E)))"
        by (simp add: graph_of_def)
      moreover from this xc have "map_of ?ind2 x = map_of ?ind x"
        by (auto simp: map_of_setdefault map_of_setitem split: option.splits)
      ultimately show ?thesis
        using xc by simp
    next
      case False
      with assms have "x \<notin> snd ` set E"
        by (auto simp: graph_of_def)
      then have e: "filter (\<lambda>e. snd e = x) E = []"
        by (auto simp: filter_empty_conv)
      from False xc that have "x = p"
        by (auto simp: keys_setdefault keys_setitem)
      with False xc e show ?thesis
        by (auto simp: map_of_setdefault map_of_setitem in_keys_iff split: option.splits)
    qed
  qed
  show ?thesis
    unfolding g' graph_of_def fst_conv snd_conv
    using d1 d2 k1 k2 a i by blast
qed

lemma graph_of_fold:
  "graph_of K E g \<Longrightarrow> graph_of K (E @ E') (fold (\<lambda>(p, c). build_edge c p) E' g)"
proof (induction E' arbitrary: E g)
  case Nil
  then show ?case by simp
next
  case (Cons e E')
  obtain p c where e: "e = (p, c)"
    by (cases e)
  from Cons.IH [OF graph_of_step [OF Cons.prems, of p c]] show ?case
    by (simp add: e)
qed

lemma fold_edges:
  "fold (\<lambda>(course, pres) g. fold (build_edge course) pres g) P g =
     fold (\<lambda>(p, c). build_edge c p) (concat (map (\<lambda>(c, pres). map (\<lambda>p. (p, c)) pres) P)) g"
proof (induction P arbitrary: g)
  case Nil
  then show ?case by simp
next
  case (Cons a P)
  obtain c pres where a: "a = (c, pres)"
    by (cases a)
  have "fold (\<lambda>(p, c). build_edge c p) (map (\<lambda>p. (p, c)) pres) g = fold (build_edge c) pres g"
    by (simp add: fold_map comp_def)
  with Cons.IH show ?case
    by (simp add: a)
qed

lemma fold_setdefault_known:
  "set K \<subseteq> set (keys (fst g)) \<Longrightarrow> set K \<subseteq> set (keys (snd g)) \<Longrightarrow>
     fold (\<lambda>c g. (setdefault c [] (fst g), setdefault c 0 (snd g))) K g = g"
  by (induction K) (simp_all add: setdefault_known)

lemma graph_of_build_graph:
  assumes "distinct (keys (courses m))"
  shows "graph_of (keys (courses m)) (edge_list m) (build_graph m)"
proof -
  let ?K = "keys (courses m)"
  let ?g = "fold (\<lambda>(p, c). build_edge c p) (edge_list m) (map (\<lambda>c. (c, [])) ?K, map (\<lambda>c. (c, 0)) ?K)"
  have g: "graph_of ?K (edge_list m) ?g"
    using graph_of_fold [OF graph_of_init [OF assms], of "edge_list m"] by simp
  then have "set ?K \<subseteq> set (keys (fst ?g))" "set ?K \<subseteq> set (keys (snd ?g))"
    by (auto simp: graph_of_def)
  then have "build_graph m = ?g"
    unfolding build_graph_def Let_def fold_edges edge_list_def [symmetric]
    by (rule fold_setdefault_known)
  with g show ?thesis
    by simp
qed

lemma in_edge_list:
  assumes "distinct (keys (prereqs m))"
  shows "(p, c) \<in> set (edge_list m) \<longleftrightarrow> p \<in> set (prereqs_of m c)"
proof -
  have "(p, c) \<in> set (edge_list m) \<longleftrightarrow> (\<exists>pres. (c, pres) \<in> set (prereqs m) \<and> p \<in> set pres)"
    by (auto simp: edge_list_def)
  also have "\<dots> \<longleftrightarrow> (\<exists>pres. map_of (prereqs m) c = Some pres \<and> p \<in> set pres)"
    using assms by (simp add: keys_def)
  also have "\<dots> \<longleftrightarrow> p \<in> set (prereqs_of m c)"
    by (cases "map_of (prereqs m) c") (simp_all add: prereqs_of_def get_default_def)
  finally show ?thesis .
qed

lemma set_edge_list: "distinct (keys (prereqs m)) \<Longrightarrow> set (edge_list m) = edges m"
  by (auto simp: edges_def in_edge_list)

lemma distinct_edge_list: "rep_ok m \<Longrightarrow> distinct (edge_list m)"
proof -
  assume rep: "rep_ok m"
  have pres: "distinct pres" if "(c, pres) \<in> set (prereqs m)" for c pres
  proof -
    from that rep have "map_of (prereqs m) c = Some pres"
      by (simp add: rep_ok_def keys_def)
    then have "prereqs_of m c = pres"
      by (simp add: prereqs_of_def get_default_def)
    with rep show ?thesis
      by (auto simp: rep_ok_def)
  qed
  have "distinct (concat (map (\<lambda>(c, pres). map (\<lambda>p. (p, c)) pres) P))"
    if "distinct (map fst P)" and "\<And>c pres. (c, pres) \<in> set P \<Longrightarrow> distinct pres" for P
    using that
  proof (induction P)
    case Nil
    then show ?case by simp
  next
    case (Cons a P)
    obtain c pres where a: "a = (c, pres)"
      by (cases a)
    from Cons.prems have "distinct (map (\<lambda>p. (p, c)) pres)"
      by (auto simp: a distinct_map inj_on_def)
    moreover from Cons.prems have "distinct (concat (map (\<lambda>(c, pres). map (\<lambda>p. (p, c)) pres) P))"
      by (intro Cons.IH) auto
    moreover from Cons.prems(1) have
      "set (map (\<lambda>p. (p, c)) pres) \<inter> set (concat (map (\<lambda>(c, pres). map (\<lambda>p. (p, c)) pres) P)) = {}"
      by (force simp: a)
    ultimately show ?case
      by (simp add: a)
  qed
  from this [of "prereqs m"] rep pres show ?thesis
    by (auto simp: edge_list_def rep_ok_def keys_def)
qed

text \<open>The dependents of a code in the adjacency of \<^const>\<open>build_graph\<close>.\<close>

lemma build_graph_adjacency:
  assumes "rep_ok m"
  shows "distinct (get_default (fst (build_graph m)) x [])"
    and "set (get_default (fst (build_graph m)) x []) = {c. x \<in> set (prereqs_of m c)}"
  using graph_of_build_graph [of m] assms
  by (auto simp: graph_of_def rep_ok_def in_edge_list)


subsection \<open>The unlock count\<close>

lemma foldl_count:
  "foldl (\<lambda>count v. if P v then count + 1 else count) (a::int) vs = a + int (length (filter P vs))"
  by (induction vs arbitrary: a) simp_all

text \<open>
  Claim C10. For a model whose lists represent dictionaries and sets, the unlock count of
  \<open>x\<close> is the number of codes \<open>y\<close> that have \<open>x\<close> among their prerequisites and all their
  other prerequisites in the completed set. Neither the completion of \<open>y\<close> nor the state
  of \<open>x\<close> enters the count.
\<close>

theorem unlock_count_spec:
  assumes "rep_ok m"
  shows "unlock_count m x =
     int (card {y. x \<in> set (prereqs_of m y) \<and>
                   (\<forall>p \<in> set (prereqs_of m y) - {x}. p \<in> set (passed m))})"
proof -
  let ?deps = "get_default (fst (build_graph m)) x []"
  let ?P = "\<lambda>y. \<forall>p \<in> set (prereqs_of m y) - {x}. p \<in> set (passed m)"
  have "unlock_count m x = int (length (filter ?P ?deps))"
    by (simp add: unlock_count_def Let_def prereqs_of_def foldl_count Ball_def)
  also have "length (filter ?P ?deps) = card (set (filter ?P ?deps))"
    using build_graph_adjacency(1) [OF assms, of x]
    by (intro distinct_card [symmetric] distinct_filter)
  also have "set (filter ?P ?deps) = {y. x \<in> set (prereqs_of m y) \<and> ?P y}"
    using build_graph_adjacency(2) [OF assms, of x] by auto
  finally show ?thesis .
qed

lemma ex_model_value:
  "ex_model =
     \<lparr>courses =
        [(''A'', \<lparr>code = ''A'', name = ''A'', credits = 1\<rparr>),
         (''B'', \<lparr>code = ''B'', name = ''B'', credits = 1\<rparr>),
         (''C'', \<lparr>code = ''C'', name = ''C'', credits = 1\<rparr>),
         (''D'', \<lparr>code = ''D'', name = ''D'', credits = 1\<rparr>)],
      prereqs = [(''B'', [''A'']), (''C'', [''B''])],
      passed = [''A'', ''B'']\<rparr>"
  by code_simp

lemma reachable_ex_model: "reachable ex_model"
  unfolding ex_model_def by (rule reachable.load)

lemma rep_ok_ex_model: "rep_ok ex_model"
  using reachable_model_inv [OF reachable_ex_model] by (simp add: model_inv_def)

theorem unlock_count_spec_witness:
  "rep_ok ex_model \<and> unlock_count ex_model ''A'' = 1 \<and>
   card {y. ''A'' \<in> set (prereqs_of ex_model y) \<and>
            (\<forall>p \<in> set (prereqs_of ex_model y) - {''A''}. p \<in> set (passed ex_model))} = 1"
proof -
  have "unlock_count ex_model ''A'' = 1"
    by code_simp
  with unlock_count_spec [OF rep_ok_ex_model, of "''A''"] rep_ok_ex_model show ?thesis
    by simp
qed

subsection \<open>Candidates\<close>

lemma keys_setitem_known: "k \<in> set (keys d) \<Longrightarrow> keys (setitem k v d) = keys d"
  by (simp add: keys_def setitem_def AList.update_keys)

lemma count_missing_result:
  assumes "course \<in> set (keys indeg)"
  shows "\<exists>indeg'. count_missing psd course pres indeg = Inr indeg' \<and> keys indeg' = keys indeg \<and>
     (\<forall>x. map_of indeg' x =
        (if x = course
         then map_option (\<lambda>d. d + int (length (filter (\<lambda>p. p \<notin> set psd) pres))) (map_of indeg x)
         else map_of indeg x))"
  using assms
proof (induction pres arbitrary: indeg)
  case Nil
  then show ?case
    by (simp add: option.map_ident)
next
  case (Cons p pres)
  show ?case
  proof (cases "p \<in> set psd")
    case True
    from Cons.IH [OF Cons.prems] obtain indeg' where
      "count_missing psd course pres indeg = Inr indeg'" "keys indeg' = keys indeg"
      "\<forall>x. map_of indeg' x =
        (if x = course
         then map_option (\<lambda>d. d + int (length (filter (\<lambda>p. p \<notin> set psd) pres))) (map_of indeg x)
         else map_of indeg x)"
      by blast
    with True show ?thesis
      by simp
  next
    case False
    from Cons.prems obtain d where d: "map_of indeg course = Some d"
      by (auto simp: in_keys_iff)
    let ?i = "setitem course (d + 1) indeg"
    have "course \<in> set (keys ?i)"
      by (simp add: keys_setitem)
    from Cons.IH [OF this] obtain indeg' where
      "count_missing psd course pres ?i = Inr indeg'" "keys indeg' = keys ?i"
      "\<forall>x. map_of indeg' x =
        (if x = course
         then map_option (\<lambda>d. d + int (length (filter (\<lambda>p. p \<notin> set psd) pres))) (map_of ?i x)
         else map_of ?i x)"
      by blast
    with False d Cons.prems show ?thesis
      by (simp add: incr_def keys_setitem_known map_of_setitem)
  qed
qed

lemma count_all_result:
  assumes "set (keys P) \<subseteq> set (keys indeg)"
  shows "\<exists>indeg'. count_all psd P indeg = Inr indeg' \<and> keys indeg' = keys indeg \<and>
     (\<forall>x. map_of indeg' x = map_option (\<lambda>d. d + missing psd P x) (map_of indeg x))"
  using assms
proof (induction P arbitrary: indeg)
  case Nil
  then show ?case
    by (simp add: missing_def option.map_ident)
next
  case (Cons a P)
  obtain c pres where a: "a = (c, pres)"
    by (cases a)
  from Cons.prems have "c \<in> set (keys indeg)"
    by (simp add: a keys_def)
  from count_missing_result [OF this, of psd pres] obtain i1 where
    i1: "count_missing psd c pres indeg = Inr i1" "keys i1 = keys indeg"
      "\<forall>x. map_of i1 x =
        (if x = c
         then map_option (\<lambda>d. d + int (length (filter (\<lambda>p. p \<notin> set psd) pres))) (map_of indeg x)
         else map_of indeg x)"
    by blast
  from Cons.prems i1(2) have "set (keys P) \<subseteq> set (keys i1)"
    by (simp add: a keys_def)
  from Cons.IH [OF this] obtain i2 where
    i2: "count_all psd P i1 = Inr i2" "keys i2 = keys i1"
      "\<forall>x. map_of i2 x = map_option (\<lambda>d. d + missing psd P x) (map_of i1 x)"
    by blast
  have "map_of i2 x = map_option (\<lambda>d. d + missing psd (a # P) x) (map_of indeg x)" for x
  proof -
    from i1(3) have a1: "map_of i1 x =
        (if x = c
         then map_option (\<lambda>d. d + int (length (filter (\<lambda>p. p \<notin> set psd) pres))) (map_of indeg x)
         else map_of indeg x)"
      by (rule spec)
    from i2(3) have a2: "map_of i2 x = map_option (\<lambda>d. d + missing psd P x) (map_of i1 x)"
      by (rule spec)
    show ?thesis
      unfolding a2 a1 by (cases "map_of indeg x") (auto simp: a missing_def)
  qed
  with i1 i2 show ?case
    by (simp add: a)
qed

lemma missing_nonneg: "0 \<le> missing psd P x"
  unfolding missing_def by (rule sum_list_nonneg) auto

lemma missing_zero_iff:
  "missing psd P x = 0 \<longleftrightarrow> (\<forall>(c, pres) \<in> set P. c = x \<longrightarrow> set pres \<subseteq> set psd)"
proof -
  have "missing psd P x = 0 \<longleftrightarrow>
    (\<forall>v \<in> set (map (\<lambda>(c, pres). if c = x then int (length (filter (\<lambda>p. p \<notin> set psd) pres)) else 0) P).
       v = 0)"
    unfolding missing_def by (rule sum_list_nonneg_eq_0_iff) auto
  also have "\<dots> \<longleftrightarrow> (\<forall>(c, pres) \<in> set P. c = x \<longrightarrow> set pres \<subseteq> set psd)"
    by (fastforce simp: filter_empty_conv split: if_splits)
  finally show ?thesis .
qed

lemma missing_zero_prereqs_of:
  assumes "distinct (keys (prereqs m))"
  shows "missing (passed m) (prereqs m) x = 0 \<longleftrightarrow> set (prereqs_of m x) \<subseteq> set (passed m)"
proof -
  have "(\<forall>(c, pres) \<in> set (prereqs m). c = x \<longrightarrow> set pres \<subseteq> set (passed m)) \<longleftrightarrow>
      (\<forall>pres. map_of (prereqs m) x = Some pres \<longrightarrow> set pres \<subseteq> set (passed m))"
    using assms by (auto simp: keys_def)
  also have "\<dots> \<longleftrightarrow> set (prereqs_of m x) \<subseteq> set (passed m)"
    by (cases "map_of (prereqs m) x") (simp_all add: prereqs_of_def get_default_def)
  finally show ?thesis
    by (simp add: missing_zero_iff)
qed

text \<open>Under the invariant of the public operations the effective indegrees are computed
  without a \<^verbatim>\<open>KeyError\<close>; they have the catalogue's keys.\<close>

lemma current_indegree_effective_result:
  assumes "model_inv m"
  shows "\<exists>indeg. current_indegree_effective m = Inr indeg \<and> keys indeg = keys (courses m) \<and>
     (\<forall>x \<in> catalog m. map_of indeg x = Some (missing (passed m) (prereqs m) x))"
proof -
  let ?i0 = "map (\<lambda>c. (c, 0::int)) (keys (courses m))"
  from assms have "set (keys (prereqs m)) \<subseteq> set (keys ?i0)"
    by (simp add: model_inv_def edges_closed_def catalog_def keys_map_const)
  from count_all_result [OF this, of "passed m"] show ?thesis
    by (auto simp: current_indegree_effective_def keys_map_const map_of_map_const catalog_def)
qed

lemma candidates_result:
  assumes "model_inv m"
  shows "\<exists>cs. candidates m = Inr cs \<and> sorted cs \<and> distinct cs \<and>
     set cs = {c \<in> catalog m. c \<notin> set (passed m) \<and> set (prereqs_of m c) \<subseteq> set (passed m)}"
proof -
  from current_indegree_effective_result [OF assms] obtain indeg where
    i: "current_indegree_effective m = Inr indeg" "keys indeg = keys (courses m)"
      "\<forall>x \<in> catalog m. map_of indeg x = Some (missing (passed m) (prereqs m) x)"
    by blast
  from assms have dk: "distinct (keys indeg)" and dp: "distinct (keys (prereqs m))"
    by (simp_all add: i(2) model_inv_def rep_ok_def)
  let ?f = "filter (\<lambda>cd. snd cd = 0 \<and> fst cd \<notin> set (passed m)) indeg"
  let ?cs = "sort (map fst ?f)"
  have "distinct (map fst ?f)"
    using dk by (simp add: keys_def distinct_map_filter)
  then have d: "distinct ?cs"
    by simp
  have "set (map fst ?f) = {c \<in> catalog m. c \<notin> set (passed m) \<and> set (prereqs_of m c) \<subseteq> set (passed m)}"
  proof (intro set_eqI iffI)
    fix c
    assume "c \<in> set (map fst ?f)"
    then obtain d where cd: "(c, d) \<in> set indeg" "d = 0" "c \<notin> set (passed m)"
      by auto
    then have "c \<in> set (keys indeg)"
      by (force simp: keys_def)
    then have c: "c \<in> catalog m"
      by (simp add: i(2) catalog_def)
    from cd dk have "map_of indeg c = Some 0"
      by (simp add: keys_def)
    with i(3) c have "missing (passed m) (prereqs m) c = 0"
      by simp
    with c cd(3) show "c \<in> {c \<in> catalog m. c \<notin> set (passed m) \<and> set (prereqs_of m c) \<subseteq> set (passed m)}"
      by (simp add: missing_zero_prereqs_of [OF dp])
  next
    fix c
    assume "c \<in> {c \<in> catalog m. c \<notin> set (passed m) \<and> set (prereqs_of m c) \<subseteq> set (passed m)}"
    then have c: "c \<in> catalog m" "c \<notin> set (passed m)" "missing (passed m) (prereqs m) c = 0"
      by (simp_all add: missing_zero_prereqs_of [OF dp])
    with i(3) have "map_of indeg c = Some 0"
      by simp
    then have "(c, 0) \<in> set indeg"
      by (rule map_of_SomeD)
    with c(2) show "c \<in> set (map fst ?f)"
      by force
  qed
  with d i(1) show ?thesis
    by (simp add: candidates_def)
qed

text \<open>
  Claim C3. For a model built through the public operations, \<^const>\<open>candidates\<close> returns
  a list (no exception) that is sorted in ascending code order, has no repetition, and
  holds exactly the catalogue codes that are not completed and whose prerequisites are
  all completed.
\<close>

theorem candidates_spec:
  assumes "reachable m"
  shows "\<exists>cs. candidates m = Inr cs \<and> sorted cs \<and> distinct cs \<and>
     (\<forall>c \<in> catalog m. c \<in> set cs \<longleftrightarrow>
        c \<notin> set (passed m) \<and> (\<forall>p \<in> set (prereqs_of m c). p \<in> set (passed m))) \<and>
     set cs \<subseteq> catalog m"
proof -
  from candidates_result [OF reachable_model_inv [OF assms]] obtain cs where
    "candidates m = Inr cs" "sorted cs" "distinct cs"
    "set cs = {c \<in> catalog m. c \<notin> set (passed m) \<and> set (prereqs_of m c) \<subseteq> set (passed m)}"
    by blast
  then show ?thesis
    by auto
qed

theorem candidates_spec_witness:
  "reachable ex_model \<and> candidates ex_model = Inr [''C'', ''D''] \<and>
   catalog ex_model = {''A'', ''B'', ''C'', ''D''} \<and> passed ex_model = [''A'', ''B''] \<and>
   prereqs_of ex_model ''C'' = [''B''] \<and> prereqs_of ex_model ''D'' = []"
proof -
  have c: "candidates ex_model = Inr [''C'', ''D'']"
    by code_simp
  have "catalog ex_model = {''A'', ''B'', ''C'', ''D''}" "passed ex_model = [''A'', ''B'']"
    "prereqs_of ex_model ''C'' = [''B'']" "prereqs_of ex_model ''D'' = []"
    by code_simp+
  with candidates_spec [OF reachable_ex_model] c reachable_ex_model show ?thesis
    by simp
qed


subsection \<open>The digit limit\<close>

lemma more_digits_than_iff: "more_digits_than k n \<longleftrightarrow> 10 ^ k \<le> n"
proof (induction k arbitrary: n)
  case 0
  then show ?case by auto
next
  case (Suc k)
  have "10 ^ k \<le> n div 10 \<longleftrightarrow> 10 ^ k * 10 \<le> n"
    by (rule less_eq_div_iff_mult_less_eq) simp
  with Suc show ?case
    by (simp add: mult.commute)
qed

lemma format_int_iff: "format_int n = Inr () \<longleftrightarrow> printable n"
proof -
  have "(10::nat) ^ int_max_str_digits \<le> nat \<bar>n\<bar> \<longleftrightarrow> (10::int) ^ int_max_str_digits \<le> \<bar>n\<bar>"
    by (metis abs_ge_zero nat_le_iff of_nat_numeral of_nat_power zle_int nat_0_le)
  then show ?thesis
    by (auto simp: format_int_def printable_def more_digits_than_iff)
qed

lemma printable_zero: "printable 0"
  by (simp add: printable_def)

lemma format_int_cases: "format_int n = Inr () \<or> format_int n = Inl ValueError"
  by (simp add: format_int_def)

subsection \<open>The greedy selection\<close>

lemma greedy_total:
  assumes "greedy m cap cs (chosen0, tot0, reasons0) = Inr (chosen, tot, reasons)"
    and "tot0 \<le> cap" and "tot0 = sum_list (map (credit m) chosen0)"
  shows "tot \<le> cap \<and> tot = sum_list (map (credit m) chosen)"
  using assms
proof (induction cs arbitrary: chosen0 tot0 reasons0)
  case Nil
  then show ?case by auto
next
  case (Cons cd cs)
  from Cons.prems(1) obtain c where c: "map_of (courses m) cd = Some c"
    by (auto split: option.splits)
  then have cr: "credit m cd = credits c"
    by (simp add: credit_def)
  show ?case
  proof (cases "tot0 + credits c \<le> cap")
    case True
    with Cons.prems(1) c have
      "greedy m cap cs (chosen0 @ [cd], tot0 + credits c, reasons0 @ [(cd, credits c, unlock_count m cd)])
         = Inr (chosen, tot, reasons)"
      by (auto simp: Let_def split: sum.splits)
    from Cons.IH [OF this True] Cons.prems(3) cr show ?thesis
      by simp
  next
    case False
    with Cons.prems c have "greedy m cap cs (chosen0, tot0, reasons0) = Inr (chosen, tot, reasons)"
      by (simp add: Let_def)
    from Cons.IH [OF this Cons.prems(2,3)] show ?thesis .
  qed
qed

lemma greedy_returns:
  assumes "\<forall>cd \<in> set cs. cd \<in> catalog m \<and> printable (credit m cd) \<and> printable (unlock_count m cd)"
  shows "\<exists>chosen tot reasons. greedy m cap cs acc = Inr (chosen, tot, reasons) \<and>
     set chosen \<subseteq> set (fst acc) \<union> set cs"
  using assms
proof (induction cs arbitrary: acc)
  case Nil
  then show ?case
    by (cases acc) auto
next
  case (Cons cd cs)
  obtain chosen0 tot0 reasons0 where acc: "acc = (chosen0, tot0, reasons0)"
    by (cases acc)
  from Cons.prems obtain c where c: "map_of (courses m) cd = Some c"
    by (auto simp: catalog_def in_keys_iff)
  then have "credit m cd = credits c"
    by (simp add: credit_def)
  with Cons.prems have f: "format_int (credits c) = Inr ()" "format_int (unlock_count m cd) = Inr ()"
    by (simp_all add: format_int_iff)
  from Cons.prems have cs:
    "\<forall>cd \<in> set cs. cd \<in> catalog m \<and> printable (credit m cd) \<and> printable (unlock_count m cd)"
    by simp
  show ?case
  proof (cases "tot0 + credits c \<le> cap")
    case True
    from Cons.IH [OF cs, of "(chosen0 @ [cd], tot0 + credits c, reasons0 @ [(cd, credits c, unlock_count m cd)])"]
    show ?thesis
      using True c f by (auto simp: acc Let_def)
  next
    case False
    from Cons.IH [OF cs, of "(chosen0, tot0, reasons0)"]
    show ?thesis
      using False c by (auto simp: acc Let_def)
  qed
qed

lemma with_keys_result: "with_keys f xs = Inr ks \<Longrightarrow> map snd ks = xs"
proof (induction xs arbitrary: ks)
  case Nil
  then show ?case by simp
next
  case (Cons x xs)
  then show ?case
    by (auto split: sum.splits)
qed

lemma with_keys_returns:
  assumes "\<forall>x \<in> set xs. \<exists>k. f x = Inr k"
  shows "\<exists>ks. with_keys f xs = Inr ks"
  using assms
proof (induction xs)
  case Nil
  then show ?case by simp
next
  case (Cons x xs)
  then obtain k ks where "f x = Inr k" "with_keys f xs = Inr ks"
    by auto
  then show ?case by simp
qed

lemma sorted_by_result: "sorted_by f xs = Inr ys \<Longrightarrow> set ys = set xs"
proof -
  assume a: "sorted_by f xs = Inr ys"
  then obtain ks where ks: "with_keys f xs = Inr ks" "ys = map snd (sort_key fst ks)"
    by (auto simp: sorted_by_def split: sum.splits)
  have "set (map snd (sort_key fst ks)) = set (map snd ks)"
    by simp
  with ks with_keys_result [OF ks(1)] show ?thesis
    by simp
qed

lemma sorted_by_returns:
  assumes "\<forall>x \<in> set xs. \<exists>k. f x = Inr k"
  shows "\<exists>ys. sorted_by f xs = Inr ys"
  using with_keys_returns [OF assms] by (auto simp: sorted_by_def)

lemma priority_key_returns:
  assumes "cd \<in> catalog m"
    and "criterion = ''nivel'' \<longrightarrow> length (first_digits cd) \<le> int_max_str_digits"
  shows "\<exists>k. priority_key m criterion cd = Inr k"
proof -
  from assms(1) obtain c where "map_of (courses m) cd = Some c"
    by (auto simp: catalog_def in_keys_iff)
  with assms(2) show ?thesis
    by (auto simp: priority_key_def Let_def int_of_str_def)
qed

text \<open>Under the invariant of the public operations a suggestion is returned when no
  conversion between \<^verbatim>\<open>int\<close> and \<^verbatim>\<open>str\<close> exceeds the digit limit.\<close>

lemma suggest_returns:
  assumes "model_inv m"
    and "criterion = ''nivel'' \<longrightarrow> (\<forall>cd \<in> catalog m. length (first_digits cd) \<le> int_max_str_digits)"
    and "\<forall>cd \<in> catalog m. printable (credit m cd) \<and> printable (unlock_count m cd)"
  shows "\<exists>r. suggest_next_semester m cap criterion = Inr r"
proof -
  from candidates_result [OF assms(1)] obtain cs where
    cs: "candidates m = Inr cs" "set cs \<subseteq> catalog m"
    by blast
  with assms(2) have "\<forall>x \<in> set cs. \<exists>k. priority_key m criterion x = Inr k"
    using priority_key_returns by blast
  from sorted_by_returns [OF this] obtain ys where
    ys: "sorted_by (priority_key m criterion) cs = Inr ys"
    by blast
  from sorted_by_result [OF this] cs assms(3) have
    "\<forall>cd \<in> set ys. cd \<in> catalog m \<and> printable (credit m cd) \<and> printable (unlock_count m cd)"
    by auto
  from greedy_returns [OF this, of cap "([], 0, [])"] cs ys show ?thesis
    by (auto simp: suggest_next_semester_def)
qed

text \<open>
  Claim C4. For every model, every non-negative cap and every criterion: a selection that
  \<^const>\<open>suggest_next_semester\<close> returns has a total that does not exceed the cap and
  that is the sum of the credits of the chosen courses. A selection is returned (no
  exception) for a model that satisfies the invariant of the public operations, when no
  conversion between \<^verbatim>\<open>int\<close> and \<^verbatim>\<open>str\<close> exceeds the digit limit: the first run of
  digits of each code under the criterion \<^verbatim>\<open>nivel\<close>, the credits and the unlock counts
  in the reasons.
\<close>

theorem suggest_within_cap:
  assumes "0 \<le> cap"
  shows "(\<forall>chosen tot reasons.
            suggest_next_semester m cap criterion = Inr (chosen, tot, reasons) \<longrightarrow>
            tot \<le> cap \<and> tot = sum_list (map (credit m) chosen)) \<and>
         (model_inv m \<and>
          (criterion = ''nivel'' \<longrightarrow>
             (\<forall>cd \<in> catalog m. length (first_digits cd) \<le> int_max_str_digits)) \<and>
          (\<forall>cd \<in> catalog m. printable (credit m cd) \<and> printable (unlock_count m cd)) \<longrightarrow>
          (\<exists>r. suggest_next_semester m cap criterion = Inr r))"
proof (intro conjI allI impI)
  fix chosen tot reasons
  assume "suggest_next_semester m cap criterion = Inr (chosen, tot, reasons)"
  then obtain ys where "greedy m cap ys ([], 0, []) = Inr (chosen, tot, reasons)"
    by (auto simp: suggest_next_semester_def split: sum.splits)
  from greedy_total [OF this] assms
  show "tot \<le> cap" and "tot = sum_list (map (credit m) chosen)"
    by simp_all
next
  assume "model_inv m \<and>
          (criterion = ''nivel'' \<longrightarrow>
             (\<forall>cd \<in> catalog m. length (first_digits cd) \<le> int_max_str_digits)) \<and>
          (\<forall>cd \<in> catalog m. printable (credit m cd) \<and> printable (unlock_count m cd))"
  then show "\<exists>r. suggest_next_semester m cap criterion = Inr r"
    using suggest_returns [of m criterion cap] by blast
qed

theorem suggest_within_cap_witness:
  "(0::int) \<le> 1 \<and> model_inv ex_model \<and>
   suggest_next_semester ex_model 1 ''desbloqueo'' = Inr ([''C''], 1, [(''C'', 1, 0)]) \<and>
   sum_list (map (credit ex_model) [''C'']) = 1"
proof -
  have s: "suggest_next_semester ex_model 1 ''desbloqueo'' = Inr ([''C''], 1, [(''C'', 1, 0)])"
    by code_simp
  have "(0::int) \<le> 1"
    by simp
  from suggest_within_cap [OF this, of ex_model "''desbloqueo''"] s
  have "sum_list (map (credit ex_model) [''C'']) = 1"
    by simp
  with s reachable_model_inv [OF reachable_ex_model] show ?thesis
    by simp
qed

subsection \<open>A credit cap of zero\<close>

lemma greedy_zero_result:
  assumes "greedy m 0 cs (chosen0, 0, reasons0) = Inr (chosen, tot, reasons)"
    and "\<forall>cd \<in> set cs. 0 \<le> credit m cd"
  shows "tot = 0 \<and> chosen = chosen0 @ filter (\<lambda>cd. credit m cd = 0) cs"
  using assms
proof (induction cs arbitrary: chosen0 reasons0)
  case Nil
  then show ?case by auto
next
  case (Cons cd cs)
  from Cons.prems(1) obtain c where c: "map_of (courses m) cd = Some c"
    by (auto split: option.splits)
  then have cr: "credit m cd = credits c"
    by (simp add: credit_def)
  from Cons.prems(2) have nn: "0 \<le> credits c" and rest: "\<forall>cd \<in> set cs. 0 \<le> credit m cd"
    by (simp_all add: cr [symmetric])
  show ?case
  proof (cases "credits c = 0")
    case True
    with Cons.prems(1) c have
      "greedy m 0 cs (chosen0 @ [cd], 0, reasons0 @ [(cd, credits c, unlock_count m cd)])
         = Inr (chosen, tot, reasons)"
      by (auto simp: Let_def split: sum.splits)
    from Cons.IH [OF this rest] True cr show ?thesis
      by simp
  next
    case False
    with nn Cons.prems(1) c have "greedy m 0 cs (chosen0, 0, reasons0) = Inr (chosen, tot, reasons)"
      by (simp add: Let_def)
    from Cons.IH [OF this rest] False cr show ?thesis
      by simp
  qed
qed

lemma greedy_zero_returns:
  assumes "\<forall>cd \<in> set cs. cd \<in> catalog m \<and> 0 \<le> credit m cd \<and> printable (unlock_count m cd)"
  shows "\<exists>r. greedy m 0 cs (chosen0, 0, reasons0) = Inr r"
  using assms
proof (induction cs arbitrary: chosen0 reasons0)
  case Nil
  then show ?case by simp
next
  case (Cons cd cs)
  from Cons.prems obtain c where c: "map_of (courses m) cd = Some c"
    by (auto simp: catalog_def in_keys_iff)
  then have cr: "credit m cd = credits c"
    by (simp add: credit_def)
  from Cons.prems have nn: "0 \<le> credits c" and f: "format_int (unlock_count m cd) = Inr ()"
    and rest: "\<forall>cd \<in> set cs. cd \<in> catalog m \<and> 0 \<le> credit m cd \<and> printable (unlock_count m cd)"
    by (simp_all add: cr [symmetric] format_int_iff)
  have z: "format_int 0 = Inr ()"
    by (simp add: format_int_iff printable_zero)
  show ?case
  proof (cases "credits c = 0")
    case True
    from Cons.IH [OF rest, of "chosen0 @ [cd]" "reasons0 @ [(cd, credits c, unlock_count m cd)]"]
    show ?thesis
      using True c f z by (simp add: Let_def)
  next
    case False
    from Cons.IH [OF rest, of chosen0 reasons0]
    show ?thesis
      using False nn c by (simp add: Let_def)
  qed
qed

text \<open>
  Claim C5, as the code has it. With a cap of 0 the comparison \<^verbatim>\<open>total + cr <= credit_cap\<close>
  lets every candidate of zero credits in: a placeholder course, which
  \<^const>\<open>add_prereq\<close> creates with zero credits, is selected.
\<close>

theorem suggest_cap_zero_counterexample:
  "suggest_next_semester (snd (add_prereq ''A'' ''B'' new_model)) 0 ''creditos'' =
     Inr ([''A''], 0, [(''A'', 0, 1)])"
  by code_simp

text \<open>
  Claim C5, amended. For a model built through the public operations in which no candidate
  has negative credits, a selection that is returned for a cap of 0 has total 0 and holds
  exactly the candidates of zero credits; so it is empty when every candidate has positive
  credits. The selection is returned (no exception) when no conversion between
  \<^verbatim>\<open>int\<close> and \<^verbatim>\<open>str\<close> exceeds the digit limit: the first run of digits of each
  candidate's code under the criterion \<^verbatim>\<open>nivel\<close>, and the unlock counts in the reasons.
\<close>

theorem suggest_cap_zero:
  assumes "reachable m" and "candidates m = Inr cs" and "\<forall>cd \<in> set cs. 0 \<le> credit m cd"
  shows "(\<forall>chosen tot reasons.
            suggest_next_semester m 0 criterion = Inr (chosen, tot, reasons) \<longrightarrow>
            tot = 0 \<and> set chosen = {cd \<in> set cs. credit m cd = 0} \<and>
            ((\<forall>cd \<in> set cs. 0 < credit m cd) \<longrightarrow> chosen = [])) \<and>
         ((criterion = ''nivel'' \<longrightarrow>
             (\<forall>cd \<in> set cs. length (first_digits cd) \<le> int_max_str_digits)) \<and>
          (\<forall>cd \<in> set cs. printable (unlock_count m cd)) \<longrightarrow>
          (\<exists>r. suggest_next_semester m 0 criterion = Inr r))"
proof (intro conjI allI impI)
  fix chosen tot reasons
  assume "suggest_next_semester m 0 criterion = Inr (chosen, tot, reasons)"
  with assms(2) obtain ys where ys: "sorted_by (priority_key m criterion) cs = Inr ys"
    and g: "greedy m 0 ys ([], 0, []) = Inr (chosen, tot, reasons)"
    by (auto simp: suggest_next_semester_def split: sum.splits)
  from sorted_by_result [OF ys] have set: "set ys = set cs" .
  with assms(3) have "\<forall>cd \<in> set ys. 0 \<le> credit m cd"
    by simp
  from greedy_zero_result [OF g this] have r: "tot = 0" "chosen = filter (\<lambda>cd. credit m cd = 0) ys"
    by simp_all
  show "tot = 0"
    by (rule r(1))
  show "set chosen = {cd \<in> set cs. credit m cd = 0}"
    using r(2) set by auto
  show "chosen = []" if "\<forall>cd \<in> set cs. 0 < credit m cd"
    using that r(2) set by (auto simp: filter_empty_conv)
next
  assume a: "(criterion = ''nivel'' \<longrightarrow>
             (\<forall>cd \<in> set cs. length (first_digits cd) \<le> int_max_str_digits)) \<and>
          (\<forall>cd \<in> set cs. printable (unlock_count m cd))"
  have inv: "model_inv m"
    using assms(1) by (rule reachable_model_inv)
  from candidates_result [OF inv] assms(2) have cat: "set cs \<subseteq> catalog m"
    by auto
  with a have "\<forall>x \<in> set cs. \<exists>k. priority_key m criterion x = Inr k"
    using priority_key_returns by blast
  from sorted_by_returns [OF this] obtain ys where
    ys: "sorted_by (priority_key m criterion) cs = Inr ys"
    by blast
  from sorted_by_result [OF this] cat assms(3) a have
    "\<forall>cd \<in> set ys. cd \<in> catalog m \<and> 0 \<le> credit m cd \<and> printable (unlock_count m cd)"
    by auto
  from greedy_zero_returns [OF this, of "[]" "[]"] assms(2) ys
  show "\<exists>r. suggest_next_semester m 0 criterion = Inr r"
    by (auto simp: suggest_next_semester_def)
qed

theorem suggest_cap_zero_witness:
  "reachable ex_model \<and> candidates ex_model = Inr [''C'', ''D''] \<and>
   0 \<le> credit ex_model ''C'' \<and> 0 \<le> credit ex_model ''D'' \<and>
   0 < credit ex_model ''C'' \<and> 0 < credit ex_model ''D'' \<and>
   suggest_next_semester ex_model 0 ''nivel'' = Inr ([], 0, [])"
proof -
  have c: "candidates ex_model = Inr [''C'', ''D'']"
    by code_simp
  have cr: "credit ex_model ''C'' = 1" "credit ex_model ''D'' = 1"
    by code_simp+
  then have nn: "\<forall>cd \<in> set [''C'', ''D'']. 0 \<le> credit ex_model cd"
    by simp
  have s: "suggest_next_semester ex_model 0 ''nivel'' = Inr ([], 0, [])"
    by code_simp
  from suggest_cap_zero [OF reachable_ex_model c nn, of "''nivel''"] s cr
  have "([]::string list) = []"
    by simp
  with s c cr reachable_ex_model show ?thesis
    by simp
qed


subsection \<open>Serialisation round trip\<close>

lemma edges_ensure: "edges (ensure p m) = edges m"
  by (simp add: edges_def prereqs_of_ensure)

lemma edges_record_edge: "edges (record_edge p c m) = insert (p, c) (edges m)"
  by (auto simp: edges_def prereqs_of_record_edge set_set_add)

lemma edges_from_dict_prereq:
  "edges (from_dict_prereq pc m) = insert (upper (fst pc), upper (snd pc)) (edges m)"
  by (simp add: from_dict_prereq_alt edges_ensure edges_record_edge)

lemma edges_fold_from_dict_prereq:
  "edges (fold from_dict_prereq E m) = (\<lambda>pc. (upper (fst pc), upper (snd pc))) ` set E \<union> edges m"
  by (induction E arbitrary: m) (auto simp: edges_from_dict_prereq)

lemma ensure_known: "p \<in> catalog m \<Longrightarrow> ensure p m = m"
  by (simp add: ensure_def catalog_def)

lemma courses_from_dict_prereq:
  "upper (fst pc) \<in> catalog m \<Longrightarrow> upper (snd pc) \<in> catalog m \<Longrightarrow>
     courses (from_dict_prereq pc m) = courses m"
  by (simp add: from_dict_prereq_alt ensure_known catalog_record_edge courses_record_edge)

lemma courses_fold_from_dict_prereq:
  "\<forall>pc \<in> set E. upper (fst pc) \<in> catalog m \<and> upper (snd pc) \<in> catalog m \<Longrightarrow>
     courses (fold from_dict_prereq E m) = courses m"
proof (induction E arbitrary: m)
  case Nil
  then show ?case by simp
next
  case (Cons pc E)
  then have c: "courses (from_dict_prereq pc m) = courses m"
    by (simp add: courses_from_dict_prereq)
  then have "catalog (from_dict_prereq pc m) = catalog m"
    by (simp add: catalog_def)
  with Cons.prems have
    "\<forall>pc' \<in> set E. upper (fst pc') \<in> catalog (from_dict_prereq pc m) \<and>
       upper (snd pc') \<in> catalog (from_dict_prereq pc m)"
    by simp
  from Cons.IH [OF this] c show ?case
    by simp
qed

lemma course_eta: "\<lparr>code = code c, name = name c, credits = credits c\<rparr> = (c::Course)"
  by (cases c) simp

lemma setitem_new: "map_of d k = None \<Longrightarrow> setitem k v d = d @ [(k, v)]"
  unfolding setitem_def by (induction d) (auto split: if_splits)

lemma courses_fold_from_dict_course:
  assumes "distinct (map code cs)" and "set (map code cs) \<inter> set (keys (courses m)) = {}"
    and "\<forall>c \<in> set cs. upper (code c) = code c"
  shows "courses (fold from_dict_course cs m) = courses m @ map (\<lambda>c. (code c, c)) cs"
  using assms
proof (induction cs arbitrary: m)
  case Nil
  then show ?case by simp
next
  case (Cons c cs)
  let ?m = "from_dict_course c m"
  from Cons.prems have nk: "code c \<notin> set (keys (courses m))" and up: "upper (code c) = code c"
    by auto
  then have "map_of (courses m) (code c) = None"
    by (simp add: in_keys_iff)
  then have "setitem (code c) c (courses m) = courses m @ [(code c, c)]"
    by (rule setitem_new)
  then have cm: "courses ?m = courses m @ [(code c, c)]"
    by (simp add: from_dict_course_def up course_eta)
  with Cons.prems have "set (map code cs) \<inter> set (keys (courses ?m)) = {}"
    by (auto simp: keys_def)
  with Cons.prems have "courses (fold from_dict_course cs ?m) = courses ?m @ map (\<lambda>c. (code c, c)) cs"
    by (intro Cons.IH) auto
  with cm show ?case
    by simp
qed

lemma prereqs_fold_from_dict_course: "prereqs (fold from_dict_course cs m) = prereqs m"
  by (induction cs arbitrary: m) (simp_all add: from_dict_course_def)

lemma fold_set_add_distinct: "distinct (acc @ xs) \<Longrightarrow> fold set_add xs acc = acc @ xs"
  by (induction xs arbitrary: acc) (auto simp: set_add_def)

lemma catalog_codes_upper: "model_inv m \<Longrightarrow> c \<in> catalog m \<Longrightarrow> upper c = c"
  by (force simp: model_inv_def codes_normal_def catalog_def keys_def)

lemma edge_codes_upper:
  assumes "model_inv m" and "(p, c) \<in> edges m"
  shows "p \<in> catalog m" and "c \<in> catalog m" and "upper p = p" and "upper c = c"
proof -
  from assms(2) have p: "p \<in> set (prereqs_of m c)"
    by (simp add: edges_def)
  with assms(1) show "p \<in> catalog m"
    by (auto simp: model_inv_def edges_closed_def)
  from p have "c \<in> set (keys (prereqs m))"
    by (cases "map_of (prereqs m) c") (simp_all add: prereqs_of_def get_default_def in_keys_iff)
  with assms(1) show "c \<in> catalog m"
    by (auto simp: model_inv_def edges_closed_def)
  from \<open>p \<in> catalog m\<close> \<open>c \<in> catalog m\<close> assms(1) show "upper p = p" "upper c = c"
    by (simp_all add: catalog_codes_upper)
qed

text \<open>Loading the dictionary of a model that satisfies the invariant gives back its
  catalogue (in the same order), its edges and its completed set (sorted).\<close>

lemma from_dict_to_dict:
  assumes "model_inv m"
  shows "courses (from_dict (to_dict m)) = courses m"
    and "edges (from_dict (to_dict m)) = edges m"
    and "passed (from_dict (to_dict m)) = sort (passed m)"
proof -
  let ?cs = "dict_values (courses m)"
  let ?m1 = "fold from_dict_course ?cs new_model"
  let ?m2 = "fold from_dict_prereq (edge_list m) ?m1"
  have dk: "distinct (keys (prereqs m))" and dc: "distinct (keys (courses m))"
    and dp: "distinct (passed m)"
    using assms by (simp_all add: model_inv_def rep_ok_def)
  have code: "map code ?cs = keys (courses m)"
    using assms by (auto simp: model_inv_def codes_normal_def dict_values_def keys_def)
  have eta: "map (\<lambda>c. \<lparr>code = code c, name = name c, credits = credits c\<rparr>) ?cs = ?cs"
    by (simp add: map_idI)
  have fd: "from_dict (to_dict m) = ?m2\<lparr>passed := fold set_add (map upper (sort (passed m))) []\<rparr>"
    by (simp add: from_dict_def to_dict_def Let_def eta edge_list_def)
  have up: "\<forall>c \<in> set ?cs. upper (code c) = code c"
    using assms by (auto simp: model_inv_def codes_normal_def dict_values_def)
  have "courses ?m1 = map (\<lambda>c. (code c, c)) ?cs"
    using courses_fold_from_dict_course [of ?cs new_model] dc up
    by (simp add: code) (simp add: new_model_def keys_def)
  also have "\<dots> = courses m"
    unfolding dict_values_def map_map
    using assms by (intro map_idI) (auto simp: model_inv_def codes_normal_def)
  finally have c1: "courses ?m1 = courses m" .
  then have cat1: "catalog ?m1 = catalog m"
    by (simp add: catalog_def)
  have e: "\<forall>pc \<in> set (edge_list m). upper (fst pc) \<in> catalog ?m1 \<and> upper (snd pc) \<in> catalog ?m1"
    unfolding cat1 set_edge_list [OF dk] using edge_codes_upper [OF assms] by auto
  from courses_fold_from_dict_prereq [OF e] c1 show "courses (from_dict (to_dict m)) = courses m"
    by (simp add: fd)
  have "edges ?m1 = {}"
    by (simp add: edges_def prereqs_of_def prereqs_fold_from_dict_course new_model_def
        get_default_def)
  moreover have "(\<lambda>pc. (upper (fst pc), upper (snd pc))) ` edges m = edges m"
    using edge_codes_upper(3,4) [OF assms] by (force simp: image_iff)
  ultimately have "edges ?m2 = edges m"
    by (simp add: edges_fold_from_dict_prereq set_edge_list [OF dk])
  then show "edges (from_dict (to_dict m)) = edges m"
    by (simp add: fd edges_def prereqs_of_def)
  have "map upper (sort (passed m)) = sort (passed m)"
    using assms by (auto simp: model_inv_def codes_normal_def intro: map_idI)
  moreover have "fold set_add (sort (passed m)) [] = sort (passed m)"
    using dp by (simp add: fold_set_add_distinct)
  ultimately show "passed (from_dict (to_dict m)) = sort (passed m)"
    by (simp add: fd)
qed

text \<open>
  Claim C7. For a model built through the public operations, serialising, loading and
  serialising again gives the same courses (the same list of codes, names and credits),
  the same set of prerequisite pairs (neither list repeats a pair) and the same completed
  codes as the first serialisation.
\<close>

theorem to_dict_round_trip:
  assumes "reachable m"
  shows "d_courses (to_dict (from_dict (to_dict m))) = d_courses (to_dict m) \<and>
     set (d_prerequisites (to_dict (from_dict (to_dict m)))) = set (d_prerequisites (to_dict m)) \<and>
     distinct (d_prerequisites (to_dict (from_dict (to_dict m)))) \<and>
     distinct (d_prerequisites (to_dict m)) \<and>
     d_passed (to_dict (from_dict (to_dict m))) = d_passed (to_dict m)"
proof -
  let ?m' = "from_dict (to_dict m)"
  have inv: "model_inv m" and inv': "model_inv ?m'"
    using assms by (simp_all add: reachable_model_inv model_inv_from_dict)
  then have rep: "rep_ok m" and rep': "rep_ok ?m'"
    by (simp_all add: model_inv_def)
  have pre: "d_prerequisites (to_dict x) = edge_list x"
    and crs: "d_courses (to_dict x) =
      map (\<lambda>c. \<lparr>code = code c, name = name c, credits = credits c\<rparr>) (dict_values (courses x))"
    and psd: "d_passed (to_dict x) = sort (passed x)" for x
    by (simp_all add: to_dict_def edge_list_def)
  have "d_courses (to_dict ?m') = d_courses (to_dict m)"
    by (simp only: crs from_dict_to_dict(1) [OF inv])
  moreover have "set (edge_list ?m') = set (edge_list m)"
    using rep rep' by (simp add: set_edge_list rep_ok_def from_dict_to_dict(2) [OF inv])
  moreover have "distinct (edge_list ?m')" "distinct (edge_list m)"
    using rep rep' by (simp_all add: distinct_edge_list)
  moreover have "d_passed (to_dict ?m') = d_passed (to_dict m)"
    by (simp only: psd from_dict_to_dict(3) [OF inv] sorted_sort_id [OF sorted_sort])
  ultimately show ?thesis
    by (simp only: pre)
qed

theorem to_dict_round_trip_witness:
  "reachable (snd (mark_passed ''d'' ex_model)) \<and>
   to_dict (snd (mark_passed ''d'' ex_model)) =
     \<lparr>d_courses =
        [\<lparr>code = ''A'', name = ''A'', credits = 1\<rparr>, \<lparr>code = ''B'', name = ''B'', credits = 1\<rparr>,
         \<lparr>code = ''C'', name = ''C'', credits = 1\<rparr>, \<lparr>code = ''D'', name = ''D'', credits = 1\<rparr>],
      d_prerequisites = [(''A'', ''B''), (''B'', ''C'')],
      d_passed = [''A'', ''B'', ''D'']\<rparr> \<and>
   d_courses (to_dict (from_dict (to_dict (snd (mark_passed ''d'' ex_model))))) =
     [\<lparr>code = ''A'', name = ''A'', credits = 1\<rparr>, \<lparr>code = ''B'', name = ''B'', credits = 1\<rparr>,
      \<lparr>code = ''C'', name = ''C'', credits = 1\<rparr>, \<lparr>code = ''D'', name = ''D'', credits = 1\<rparr>] \<and>
   set (d_prerequisites (to_dict (from_dict (to_dict (snd (mark_passed ''d'' ex_model)))))) =
     {(''A'', ''B''), (''B'', ''C'')} \<and>
   d_passed (to_dict (from_dict (to_dict (snd (mark_passed ''d'' ex_model))))) = [''A'', ''B'', ''D'']"
proof -
  let ?m = "snd (mark_passed ''d'' ex_model)"
  have r: "reachable ?m"
    by (rule reachable.mark [OF reachable_ex_model])
  have d: "to_dict ?m =
     \<lparr>d_courses =
        [\<lparr>code = ''A'', name = ''A'', credits = 1\<rparr>, \<lparr>code = ''B'', name = ''B'', credits = 1\<rparr>,
         \<lparr>code = ''C'', name = ''C'', credits = 1\<rparr>, \<lparr>code = ''D'', name = ''D'', credits = 1\<rparr>],
      d_prerequisites = [(''A'', ''B''), (''B'', ''C'')],
      d_passed = [''A'', ''B'', ''D'']\<rparr>"
    by code_simp
  from to_dict_round_trip [OF r] show ?thesis
    unfolding d using r by simp
qed


end
